theory Spec2Isabelle
  imports Complex_Main "HOL-Library.Word" "HOL-Library.Sublist"
begin

section \<open>Data model\<close>

text \<open>
  Buffers and \<^verbatim>\<open>Uint8Array\<close>s are lists of bytes. A \<^verbatim>\<open>HubError\<close> carries its code and its
  message. \<^verbatim>\<open>HubResult<T>\<close> is the sum \<open>HubError + T\<close>, with \<open>Inl\<close> for \<^verbatim>\<open>err\<close> and \<open>Inr\<close>
  for \<^verbatim>\<open>ok\<close>.
\<close>

type_synonym byte = "8 word"
type_synonym Buffer = "byte list"

datatype HubError = HubError (errCode: string) (message: string)

text \<open>
  A JavaScript \<^verbatim>\<open>number\<close>, as far as this program needs it: a finite value (kept exact,
  rounding is not modelled), the infinities and NaN.
\<close>

datatype number = Finite rat | PosInfinity | NegInfinity | NaN

text \<open>
  \<^verbatim>\<open>TrieNodeMetadataResponse\<close>: the fields the program reads, \<^verbatim>\<open>prefix\<close>,
  \<^verbatim>\<open>numMessages\<close> and \<^verbatim>\<open>children\<close> (the \<^verbatim>\<open>hash\<close> field is never read here).
\<close>

datatype TrieNodeMetadataResponse =
  TrieNodeMetadataResponse (prefix: Buffer) (numMessages: nat)
    (children: "TrieNodeMetadataResponse list")

text \<open>
  A \<^verbatim>\<open>Message\<close>: its hash and \<^verbatim>\<open>data?.userDataBody?.type\<close>, the only field read here
  (\<open>None\<close> when the optional chain yields \<^verbatim>\<open>undefined\<close>).
\<close>

datatype Message = Message (hash: Buffer) (userDataBodyType: "nat option")

text \<open>
  Remote calls are effects: each takes the state of the world \<open>'w\<close> (the replicas, the
  network, a log of calls) and returns its result with the new state. A
  \<^verbatim>\<open>MetadataRetriever\<close> is its one operation \<^verbatim>\<open>getMetadata\<close>.
\<close>

type_synonym 'w MetadataRetriever =
  "Buffer \<Rightarrow> 'w \<Rightarrow> (HubError + TrieNodeMetadataResponse) \<times> 'w"

record 'w HubRpcClient =
  getSyncMetadataByPrefix :: "Buffer \<Rightarrow> 'w \<Rightarrow> (HubError + TrieNodeMetadataResponse) \<times> 'w"
  getAllSyncIdsByPrefix :: "Buffer \<Rightarrow> 'w \<Rightarrow> (HubError + Buffer list) \<times> 'w"
  getAllMessagesBySyncIds :: "Buffer list \<Rightarrow> 'w \<Rightarrow> (HubError + Message list) \<times> 'w"
  submitMessage :: "Message \<Rightarrow> 'w \<Rightarrow> (HubError + Message) \<times> 'w"

section \<open>Buffers\<close>

text \<open>\<^verbatim>\<open>Buffer.compare\<close>: byte-lexicographic, a proper prefix sorts first; -1, 0 or 1.\<close>

fun Buffer_compare :: "Buffer \<Rightarrow> Buffer \<Rightarrow> int" where
  "Buffer_compare [] [] = 0"
| "Buffer_compare [] (y # ys) = -1"
| "Buffer_compare (x # xs) [] = 1"
| "Buffer_compare (x # xs) (y # ys) =
     (if x < y then -1 else if y < x then 1 else Buffer_compare xs ys)"

text \<open>
  \<^verbatim>\<open>getCommonPrefix\<close>: the loop pushes bytes while the two buffers agree and breaks at the
  first difference or at the end of the shorter one.
\<close>

fun getCommonPrefix :: "Buffer \<Rightarrow> Buffer \<Rightarrow> Buffer" where
  "getCommonPrefix (startValue # prefix1) (stopValue # prefix2) =
     (if startValue = stopValue then startValue # getCommonPrefix prefix1 prefix2 else [])"
| "getCommonPrefix prefix1 prefix2 = []"

text \<open>
  \<^verbatim>\<open>isPrefix(prefix1, prefix2)\<close> is \<^verbatim>\<open>prefix1.toString().startsWith(prefix2.toString())\<close>.
  The source notes that the buffers are timestamps, ASCII digits, on which decoding is the
  identity; the model compares the bytes.
\<close>

definition isPrefix :: "Buffer \<Rightarrow> Buffer \<Rightarrow> bool" where
  "isPrefix prefix1 prefix2 = Sublist.prefix prefix2 prefix1"

section \<open>Time prefixes\<close>

text \<open>
  Modelled from the spec: \<^verbatim>\<open>timestampToPaddedTimestampPrefix\<close> (imported from
  \<^verbatim>\<open>network/sync/syncId\<close>) is missing from the sources at hand. The specification asks for a
  fixed-width prefix, zero-padded on the left: the decimal digits of the protocol timestamp,
  padded to \<open>TIMESTAMP_LENGTH\<close> characters, read as ASCII bytes by \<^verbatim>\<open>Buffer.from\<close>.
\<close>

definition digitByte :: "nat \<Rightarrow> byte" where
  "digitByte d = of_nat (48 + d)"

fun toString :: "nat \<Rightarrow> Buffer" where
  "toString n = (if n < 10 then [digitByte n] else toString (n div 10) @ [digitByte (n mod 10)])"

declare toString.simps [simp del]

definition padStart :: "nat \<Rightarrow> byte \<Rightarrow> Buffer \<Rightarrow> Buffer" where
  "padStart targetLength padByte s = replicate (targetLength - length s) padByte @ s"

definition TIMESTAMP_LENGTH :: nat where
  "TIMESTAMP_LENGTH = 10"

definition timestampToPaddedTimestampPrefix :: "nat \<Rightarrow> Buffer" where
  "timestampToPaddedTimestampPrefix timestamp =
     padStart TIMESTAMP_LENGTH (digitByte 0) (toString timestamp)"

text \<open>
  The same digits computed from the width down, the form the proofs work with: on a timestamp
  below \<open>10 ^ width\<close> it is the padded prefix (lemma \<open>padStart_toString\<close> below).
\<close>

primrec digitsFixed :: "nat \<Rightarrow> nat \<Rightarrow> Buffer" where
  "digitsFixed 0 n = []"
| "digitsFixed (Suc width) n = digitsFixed width (n div 10) @ [digitByte (n mod 10)]"

text \<open>
  \<^verbatim>\<open>getTimePrefix\<close>. \<^verbatim>\<open>toFarcasterTime\<close> comes from the hub library and is a parameter: it
  maps a wall-clock time to the protocol timestamp or fails.
\<close>

definition getTimePrefix :: "(number \<Rightarrow> HubError + nat) \<Rightarrow> number \<Rightarrow> HubError + Buffer" where
  "getTimePrefix toFarcasterTime time =
     (case toFarcasterTime time of
        Inl e \<Rightarrow> Inl e
      | Inr farcasterTime \<Rightarrow> Inr (timestampToPaddedTimestampPrefix farcasterTime))"

section \<open>Metadata retrievers\<close>

text \<open>
  \<^verbatim>\<open>RpcMetadataRetriever.getMetadata\<close> forwards to the client's
  \<^verbatim>\<open>getSyncMetadataByPrefix\<close>; a missed deadline is one of the errors the call may return.
\<close>

definition RpcMetadataRetriever :: "'w HubRpcClient \<Rightarrow> 'w MetadataRetriever" where
  "RpcMetadataRetriever rpcClient = getSyncMetadataByPrefix rpcClient"

text \<open>
  Modelled from the spec: \<^verbatim>\<open>SyncEngine.getTrieNodeMetadata\<close> and
  \<^verbatim>\<open>toTrieNodeMetadataResponse\<close> are missing from the sources at hand. By the
  specification a trie node summarises all records whose key begins with the node's prefix,
  with its child nodes in order and the count of the messages beneath it, and a node that
  does not exist is not available. The sync engine is the list of the keys it holds; the
  node at \<open>p\<close> exists when some key begins with \<open>p\<close>, and its children are the nodes one byte
  deeper, in byte order.
\<close>

type_synonym SyncEngine = "Buffer list"

definition numMessagesUnder :: "SyncEngine \<Rightarrow> Buffer \<Rightarrow> nat" where
  "numMessagesUnder syncEngine p = length (filter (Sublist.prefix p) syncEngine)"

definition nextBytes :: "SyncEngine \<Rightarrow> Buffer \<Rightarrow> byte list" where
  "nextBytes syncEngine p =
     sort (remdups (map (\<lambda>k. k ! length p)
       (filter (\<lambda>k. Sublist.prefix p k \<and> length p < length k) syncEngine)))"

definition childNode :: "SyncEngine \<Rightarrow> Buffer \<Rightarrow> TrieNodeMetadataResponse" where
  "childNode syncEngine p = TrieNodeMetadataResponse p (numMessagesUnder syncEngine p) []"

definition getTrieNodeMetadata :: "SyncEngine \<Rightarrow> Buffer \<Rightarrow> TrieNodeMetadataResponse option" where
  "getTrieNodeMetadata syncEngine p =
     (if numMessagesUnder syncEngine p = 0 then None
      else Some (TrieNodeMetadataResponse p (numMessagesUnder syncEngine p)
             (map (\<lambda>b. childNode syncEngine (p @ [b])) (nextBytes syncEngine p))))"

text \<open>
  \<^verbatim>\<open>SyncEngineMetadataRetriever.getMetadata\<close>. The world is the list of the prefixes
  queried so far: each call appends its prefix.
\<close>

definition SyncEngineMetadataRetriever :: "SyncEngine \<Rightarrow> (Buffer list) MetadataRetriever" where
  "SyncEngineMetadataRetriever syncEngine p queried =
     (case getTrieNodeMetadata syncEngine p of
        Some result \<Rightarrow> (Inr result, queried @ [p])
      | None \<Rightarrow> (Inl (HubError ''unavailable'' ''Missing metadata for node''), queried @ [p]))"

section \<open>Range traversal\<close>

text \<open>
  \<^verbatim>\<open>traverseRange\<close>. The visitor \<open>f\<close> updates a variable of its caller, the state \<open>s\<close>. The
  recursion follows the children a replica answers with, so it is bounded by fuel: \<open>None\<close>
  is a run that does not return within it. The result of the recursive call is dropped, as
  in the source: only the state and the world it leaves are kept.
\<close>

fun traverseRange :: "nat \<Rightarrow> 'w MetadataRetriever \<Rightarrow> TrieNodeMetadataResponse \<Rightarrow> Buffer \<Rightarrow> Buffer
      \<Rightarrow> (TrieNodeMetadataResponse \<Rightarrow> 's \<Rightarrow> 's) \<Rightarrow> 's \<Rightarrow> 'w \<Rightarrow> ((HubError + unit) \<times> 's \<times> 'w) option"
  and traverseChildren :: "nat \<Rightarrow> 'w MetadataRetriever \<Rightarrow> TrieNodeMetadataResponse list \<Rightarrow> Buffer
      \<Rightarrow> Buffer \<Rightarrow> (TrieNodeMetadataResponse \<Rightarrow> 's \<Rightarrow> 's) \<Rightarrow> 's \<Rightarrow> 'w \<Rightarrow> ('s \<times> 'w) option"
where
  "traverseRange 0 getMetadata node startTimePrefix stopTimePrefix f s w = None"
| "traverseRange (Suc fuel) getMetadata node startTimePrefix stopTimePrefix f s w =
     (case getMetadata (prefix node) w of
        (Inl e, w') \<Rightarrow> Some (Inl e, s, w')
      | (Inr metadata, w') \<Rightarrow>
          (case traverseChildren fuel getMetadata (children metadata)
                  startTimePrefix stopTimePrefix f s w' of
             None \<Rightarrow> None
           | Some (s', w'') \<Rightarrow> Some (Inr (), s', w'')))"
| "traverseChildren fuel getMetadata [] startTimePrefix stopTimePrefix f s w = Some (s, w)"
| "traverseChildren fuel getMetadata (child # rest) startTimePrefix stopTimePrefix f s w =
     (if Buffer_compare (prefix child) startTimePrefix = 0 then
        traverseChildren fuel getMetadata rest startTimePrefix stopTimePrefix f (f child s) w
      else if isPrefix startTimePrefix (prefix child) \<or> isPrefix stopTimePrefix (prefix child) then
        (case traverseRange fuel getMetadata child startTimePrefix stopTimePrefix f s w of
           None \<Rightarrow> None
         | Some (_, s', w') \<Rightarrow>
             traverseChildren fuel getMetadata rest startTimePrefix stopTimePrefix f s' w')
      else if Buffer_compare (prefix child) startTimePrefix = 1
            \<and> Buffer_compare (prefix child) stopTimePrefix = -1 then
        traverseChildren fuel getMetadata rest startTimePrefix stopTimePrefix f (f child s) w
      else traverseChildren fuel getMetadata rest startTimePrefix stopTimePrefix f s w)"

record PrefixInfo =
  startTimePrefix :: Buffer
  stopTimePrefix :: Buffer
  commonPrefixMetadata :: TrieNodeMetadataResponse

definition getPrefixInfo :: "'w MetadataRetriever \<Rightarrow> (number \<Rightarrow> HubError + nat) \<Rightarrow> number \<Rightarrow> number
      \<Rightarrow> 'w \<Rightarrow> (HubError + PrefixInfo) \<times> 'w" where
  "getPrefixInfo getMetadata toFarcasterTime startTime stopTime w =
     (case getTimePrefix toFarcasterTime startTime of
        Inl e \<Rightarrow> (Inl e, w)
      | Inr startPrefix \<Rightarrow>
          (case getTimePrefix toFarcasterTime stopTime of
             Inl e \<Rightarrow> (Inl e, w)
           | Inr stopPrefix \<Rightarrow>
               (case getMetadata (getCommonPrefix startPrefix stopPrefix) w of
                  (Inl e, w') \<Rightarrow> (Inl e, w')
                | (Inr metadata, w') \<Rightarrow>
                    (Inr \<lparr>startTimePrefix = startPrefix, stopTimePrefix = stopPrefix,
                          commonPrefixMetadata = metadata\<rparr>, w'))))"

section \<open>Span counter\<close>

definition getNumMessagesInSpanOptimized :: "nat \<Rightarrow> 'w MetadataRetriever
      \<Rightarrow> (number \<Rightarrow> HubError + nat) \<Rightarrow> number \<Rightarrow> number \<Rightarrow> 'w \<Rightarrow> ((HubError + nat) \<times> 'w) option" where
  "getNumMessagesInSpanOptimized fuel getMetadata toFarcasterTime startTime stopTime w =
     (case getPrefixInfo getMetadata toFarcasterTime startTime stopTime w of
        (Inl e, w') \<Rightarrow> Some (Inl e, w')
      | (Inr prefixInfo, w') \<Rightarrow>
          (case traverseRange fuel getMetadata (commonPrefixMetadata prefixInfo)
                  (startTimePrefix prefixInfo) (stopTimePrefix prefixInfo)
                  (\<lambda>node numMessages'. numMessages' + numMessages node) 0 w' of
             None \<Rightarrow> None
           | Some (Inl e, _, w'') \<Rightarrow> Some (Inl e, w'')
           | Some (Inr _, numMessages', w'') \<Rightarrow> Some (Inr numMessages', w'')))"

record SyncHealthMessageStats =
  primaryNumMessages :: nat
  peerNumMessages :: nat

definition computeSyncHealthMessageStats :: "nat \<Rightarrow> (number \<Rightarrow> HubError + nat) \<Rightarrow> number \<Rightarrow> number
      \<Rightarrow> 'w MetadataRetriever \<Rightarrow> 'w MetadataRetriever \<Rightarrow> 'w
      \<Rightarrow> ((HubError + SyncHealthMessageStats) \<times> 'w) option" where
  "computeSyncHealthMessageStats fuel toFarcasterTime startTime stopTime
       primaryMetadataRetriever peerMetadataRetriever w =
     (case getNumMessagesInSpanOptimized fuel primaryMetadataRetriever toFarcasterTime
             startTime stopTime w of
        None \<Rightarrow> None
      | Some (numMessagesPrimary, w1) \<Rightarrow>
          (case getNumMessagesInSpanOptimized fuel peerMetadataRetriever toFarcasterTime
                  startTime stopTime w1 of
             None \<Rightarrow> None
           | Some (numMessagesPeer, w2) \<Rightarrow>
               (case numMessagesPrimary of
                  Inl e \<Rightarrow> Some (Inl e, w2)
                | Inr primaryCount \<Rightarrow>
                    (case numMessagesPeer of
                       Inl e \<Rightarrow> Some (Inl e, w2)
                     | Inr peerCount \<Rightarrow>
                         Some (Inr \<lparr>primaryNumMessages = primaryCount,
                                    peerNumMessages = peerCount\<rparr>, w2)))))"

section \<open>Identifier collector\<close>

text \<open>
  The loop of \<^verbatim>\<open>computeSyncIdsInSpan\<close> over the collected prefixes: the identifiers of a
  prefix are appended when its fetch is ok, and nothing is done when it is not.
\<close>

fun fetchSyncIds :: "'w HubRpcClient \<Rightarrow> Buffer list \<Rightarrow> Buffer list \<Rightarrow> 'w \<Rightarrow> Buffer list \<times> 'w" where
  "fetchSyncIds rpcClient [] syncIds w = (syncIds, w)"
| "fetchSyncIds rpcClient (p # rest) syncIds w =
     (case getAllSyncIdsByPrefix rpcClient p w of
        (Inr prefixSyncIds, w') \<Rightarrow> fetchSyncIds rpcClient rest (syncIds @ prefixSyncIds) w'
      | (Inl _, w') \<Rightarrow> fetchSyncIds rpcClient rest syncIds w')"

definition computeSyncIdsInSpan :: "nat \<Rightarrow> 'w HubRpcClient \<Rightarrow> (number \<Rightarrow> HubError + nat)
      \<Rightarrow> number \<Rightarrow> number \<Rightarrow> 'w \<Rightarrow> ((HubError + Buffer list) \<times> 'w) option" where
  "computeSyncIdsInSpan fuel rpcClient toFarcasterTime startTime stopTime w =
     (case getPrefixInfo (RpcMetadataRetriever rpcClient) toFarcasterTime startTime stopTime w of
        (Inl e, w') \<Rightarrow> Some (Inl e, w')
      | (Inr prefixInfo, w') \<Rightarrow>
          (case traverseRange fuel (RpcMetadataRetriever rpcClient)
                  (commonPrefixMetadata prefixInfo)
                  (startTimePrefix prefixInfo) (stopTimePrefix prefixInfo)
                  (\<lambda>node collected. collected @ [prefix node]) [] w' of
             None \<Rightarrow> None
           | Some (Inl e, _, w'') \<Rightarrow> Some (Inl e, w'')
           | Some (Inr _, collected, w'') \<Rightarrow>
               (case fetchSyncIds rpcClient collected [] w'' of
                  (syncIds, w''') \<Rightarrow> Some (Inr syncIds, w'''))))"

section \<open>Diff and repair\<close>

text \<open>The loop of \<^verbatim>\<open>tryPushingMissingMessages\<close>: every message is submitted, every result pushed.\<close>

fun submitMessages :: "'w HubRpcClient \<Rightarrow> Message list \<Rightarrow> (HubError + Message) list \<Rightarrow> 'w
      \<Rightarrow> (HubError + Message) list \<times> 'w" where
  "submitMessages rpcClient [] results w = (results, w)"
| "submitMessages rpcClient (m # messages) results w =
     (case submitMessage rpcClient m w of
        (result, w') \<Rightarrow> submitMessages rpcClient messages (results @ [result]) w')"

definition tryPushingMissingMessages :: "'w HubRpcClient \<Rightarrow> 'w HubRpcClient \<Rightarrow> Buffer list \<Rightarrow> 'w
      \<Rightarrow> (HubError + (HubError + Message) list) \<times> 'w" where
  "tryPushingMissingMessages rpcClientWithMessages rpcClientMissingMessages missingSyncIds w =
     (if length missingSyncIds = 0 then (Inr [], w)
      else
        (case getAllMessagesBySyncIds rpcClientWithMessages missingSyncIds w of
           (Inl e, w') \<Rightarrow> (Inl e, w')
         | (Inr messages, w') \<Rightarrow>
             (case submitMessages rpcClientMissingMessages messages [] w' of
                (results, w'') \<Rightarrow> (Inr results, w''))))"

text \<open>
  \<^verbatim>\<open>uniqueSyncIds\<close>: for each identifier of the first list, in order, \<^verbatim>\<open>find\<close> looks for a
  byte-equal identifier in the second list, and the identifier is pushed when there is none.
\<close>

fun uniqueSyncIdsLoop :: "Buffer list \<Rightarrow> Buffer list \<Rightarrow> Buffer list \<Rightarrow> Buffer list" where
  "uniqueSyncIdsLoop [] otherSyncIds idsOnlyInPrimary = idsOnlyInPrimary"
| "uniqueSyncIdsLoop (syncId # rest) otherSyncIds idsOnlyInPrimary =
     (case find (\<lambda>otherSyncId. Buffer_compare syncId otherSyncId = 0) otherSyncIds of
        None \<Rightarrow> uniqueSyncIdsLoop rest otherSyncIds (idsOnlyInPrimary @ [syncId])
      | Some _ \<Rightarrow> uniqueSyncIdsLoop rest otherSyncIds idsOnlyInPrimary)"

definition uniqueSyncIds :: "Buffer list \<Rightarrow> Buffer list \<Rightarrow> Buffer list" where
  "uniqueSyncIds mySyncIds otherSyncIds = uniqueSyncIdsLoop mySyncIds otherSyncIds []"

record DiffResults =
  resultsPushingToPeer :: "(HubError + Message) list"
  resultsPushingToPrimary :: "(HubError + Message) list"

definition investigateDiff :: "nat \<Rightarrow> 'w HubRpcClient \<Rightarrow> 'w HubRpcClient
      \<Rightarrow> (number \<Rightarrow> HubError + nat) \<Rightarrow> number \<Rightarrow> number \<Rightarrow> 'w
      \<Rightarrow> ((HubError + DiffResults) \<times> 'w) option" where
  "investigateDiff fuel primaryRpcClient peerRpcClient toFarcasterTime startTime stopTime w =
     (case computeSyncIdsInSpan fuel primaryRpcClient toFarcasterTime startTime stopTime w of
        None \<Rightarrow> None
      | Some (Inl e, w1) \<Rightarrow> Some (Inl e, w1)
      | Some (Inr primarySyncIds, w1) \<Rightarrow>
          (case computeSyncIdsInSpan fuel peerRpcClient toFarcasterTime startTime stopTime w1 of
             None \<Rightarrow> None
           | Some (Inl e, w2) \<Rightarrow> Some (Inl e, w2)
           | Some (Inr peerSyncIds, w2) \<Rightarrow>
               (let idsOnlyInPrimary = uniqueSyncIds primarySyncIds peerSyncIds;
                    idsOnlyInPeer = uniqueSyncIds peerSyncIds primarySyncIds
                in (case tryPushingMissingMessages primaryRpcClient peerRpcClient
                           idsOnlyInPrimary w2 of
                      (Inl e, w3) \<Rightarrow> Some (Inl e, w3)
                    | (Inr toPeer, w3) \<Rightarrow>
                        (case tryPushingMissingMessages peerRpcClient primaryRpcClient
                                idsOnlyInPeer w3 of
                           (Inl e, w4) \<Rightarrow> Some (Inl e, w4)
                         | (Inr toPrimary, w4) \<Rightarrow>
                             Some (Inr \<lparr>resultsPushingToPeer = toPeer,
                                        resultsPushingToPrimary = toPrimary\<rparr>, w4))))))"

section \<open>Health report\<close>

text \<open>
  \<^verbatim>\<open>SyncHealthMessageStats\<close>. The counts are sums of \<^verbatim>\<open>numMessages\<close>, non-negative
  integers. \<^verbatim>\<open>computeDiff\<close> is \<^verbatim>\<open>Math.abs\<close> of their difference. The division of
  \<^verbatim>\<open>computeDiffPercentage\<close> is the division of JavaScript numbers: a positive number divided
  by zero is \<^verbatim>\<open>Infinity\<close> and zero divided by zero is \<^verbatim>\<open>NaN\<close>.
\<close>

definition computeDiff :: "SyncHealthMessageStats \<Rightarrow> nat" where
  "computeDiff stats =
     (if peerNumMessages stats \<le> primaryNumMessages stats
      then primaryNumMessages stats - peerNumMessages stats
      else peerNumMessages stats - primaryNumMessages stats)"

definition divide_number :: "nat \<Rightarrow> nat \<Rightarrow> number" where
  "divide_number x y =
     (if y = 0 then (if x = 0 then NaN else PosInfinity) else Finite (of_nat x / of_nat y))"

definition computeDiffPercentage :: "SyncHealthMessageStats \<Rightarrow> number" where
  "computeDiffPercentage stats = divide_number (computeDiff stats) (primaryNumMessages stats)"

record Stats =
  syncHealthMessageStats :: SyncHealthMessageStats
  resultsUploadingToPeer :: "(HubError + Message) list"
  resultsUploadingToPrimary :: "(HubError + Message) list"
  primary :: string
  peer :: string
  startTime :: number
  stopTime :: number

datatype Who = Primary | Peer

definition results :: "Who \<Rightarrow> Stats \<Rightarrow> (HubError + Message) list" where
  "results who stats =
     (if who = Primary then resultsUploadingToPrimary stats else resultsUploadingToPeer stats)"

definition errorResults :: "Who \<Rightarrow> Stats \<Rightarrow> (HubError + Message) list" where
  "errorResults who stats = filter isl (results who stats)"

definition successResults :: "Who \<Rightarrow> Stats \<Rightarrow> (HubError + Message) list" where
  "successResults who stats = filter (\<lambda>result. \<not> isl result) (results who stats)"

text \<open>A \<^verbatim>\<open>Set\<close> spread into an array: the values in the order of their first insertion.\<close>

definition Set_add :: "'a list \<Rightarrow> 'a \<Rightarrow> 'a list" where
  "Set_add s x = (if x \<in> set s then s else s @ [x])"

fun errorReasonsLoop :: "(HubError + Message) list \<Rightarrow> string list \<Rightarrow> string list" where
  "errorReasonsLoop [] errorReasons = errorReasons"
| "errorReasonsLoop (Inl e # rest) errorReasons =
     errorReasonsLoop rest (Set_add errorReasons (message e))"
| "errorReasonsLoop (Inr _ # rest) errorReasons = errorReasonsLoop rest errorReasons"

definition errorReasons :: "Who \<Rightarrow> Stats \<Rightarrow> string list" where
  "errorReasons who stats = errorReasonsLoop (errorResults who stats) []"

fun successTypesLoop :: "(HubError + Message) list \<Rightarrow> nat option list \<Rightarrow> nat option list" where
  "successTypesLoop [] successTypes = successTypes"
| "successTypesLoop (Inr m # rest) successTypes =
     successTypesLoop rest (Set_add successTypes (userDataBodyType m))"
| "successTypesLoop (Inl _ # rest) successTypes = successTypesLoop rest successTypes"

definition successTypes :: "Who \<Rightarrow> Stats \<Rightarrow> nat option list" where
  "successTypes who stats = successTypesLoop (successResults who stats) []"

text \<open>
  \<^verbatim>\<open>JSON.stringify\<close> writes a tree of values; the model keeps the tree. A number that is not
  finite is written \<^verbatim>\<open>null\<close>, an \<^verbatim>\<open>undefined\<close> array element is written \<^verbatim>\<open>null\<close>, and a
  \<^verbatim>\<open>Date\<close> is written as its ISO text (\<open>JIsoDate\<close> of its time value) or as \<^verbatim>\<open>null\<close> when
  the time value is not a valid date.
\<close>

datatype json =
  JNull | JNumber rat | JString string | JIsoDate rat | JArray "json list"
  | JObject "(string \<times> json) list"

definition JSON_number :: "number \<Rightarrow> json" where
  "JSON_number x = (case x of Finite q \<Rightarrow> JNumber q | _ \<Rightarrow> JNull)"

definition JSON_date :: "number \<Rightarrow> json" where
  "JSON_date x =
     (case x of
        Finite t \<Rightarrow> if \<bar>t\<bar> \<le> 8640000000000000 then JIsoDate t else JNull
      | _ \<Rightarrow> JNull)"

definition JSON_count :: "nat \<Rightarrow> json" where
  "JSON_count n = JSON_number (Finite (of_nat n))"

definition serializedSummary :: "Stats \<Rightarrow> json" where
  "serializedSummary stats = JObject
     [(''startTime'', JSON_date (startTime stats)),
      (''stopTime'', JSON_date (stopTime stats)),
      (''primary'', JString (primary stats)),
      (''peer'', JString (peer stats)),
      (''primaryMessageCount'', JSON_count (primaryNumMessages (syncHealthMessageStats stats))),
      (''peerMessageCount'', JSON_count (peerNumMessages (syncHealthMessageStats stats))),
      (''diff'', JSON_count (computeDiff (syncHealthMessageStats stats))),
      (''diffPercentage'', JSON_number (computeDiffPercentage (syncHealthMessageStats stats))),
      (''numSuccessToPeer'', JSON_count (length (successResults Peer stats))),
      (''numErrorToPeer'', JSON_count (length (errorResults Peer stats))),
      (''successTypesToPeer'',
         JArray (map (\<lambda>t. case t of None \<Rightarrow> JNull | Some n \<Rightarrow> JSON_count n)
                   (successTypes Peer stats))),
      (''errorMessagesToPeer'', JArray (map JString (errorReasons Peer stats))),
      (''numSuccessToPrimary'', JSON_count (length (successResults Primary stats))),
      (''numErrorToPrimary'', JSON_count (length (errorResults Primary stats))),
      (''successTypesToPrimary'',
         JArray (map (\<lambda>t. case t of None \<Rightarrow> JNull | Some n \<Rightarrow> JSON_count n)
                   (successTypes Primary stats))),
      (''errorMessagesToPrimary'', JArray (map JString (errorReasons Primary stats)))]"

section \<open>Session driver\<close>

text \<open>
  \<^verbatim>\<open>String.prototype.split\<close> on a one-character separator, array destructuring (an element
  past the end is \<^verbatim>\<open>undefined\<close>, here \<open>None\<close>) and \<^verbatim>\<open>parseInt\<close> without a radix: leading
  white space is skipped, a sign is read, a \<^verbatim>\<open>0x\<close> prefix selects base 16, and the longest
  run of digits is the value; with no digit the result is \<^verbatim>\<open>NaN\<close>.
\<close>

fun split :: "char \<Rightarrow> string \<Rightarrow> string list" where
  "split separator [] = [[]]"
| "split separator (c # cs) =
     (if c = separator then [] # split separator cs
      else (case split separator cs of
              [] \<Rightarrow> [[c]]
            | part # parts \<Rightarrow> (c # part) # parts))"

definition element :: "'a list \<Rightarrow> nat \<Rightarrow> 'a option" where
  "element xs i = (if i < length xs then Some (xs ! i) else None)"

definition isWhiteSpace :: "char \<Rightarrow> bool" where
  "isWhiteSpace c = (c \<in> set [CHR '' '', CHR 0x09, CHR 0x0A, CHR 0x0B, CHR 0x0C, CHR 0x0D])"

definition digitValue :: "char \<Rightarrow> nat option" where
  "digitValue c =
     (let n = (of_char c :: nat) in
      if 48 \<le> n \<and> n \<le> 57 then Some (n - 48)
      else if 97 \<le> n \<and> n \<le> 122 then Some (n - 87)
      else if 65 \<le> n \<and> n \<le> 90 then Some (n - 55)
      else None)"

definition isDigitOf :: "nat \<Rightarrow> char \<Rightarrow> bool" where
  "isDigitOf radix c = (case digitValue c of None \<Rightarrow> False | Some d \<Rightarrow> d < radix)"

definition digitsValue :: "nat \<Rightarrow> string \<Rightarrow> nat" where
  "digitsValue radix ds = foldl (\<lambda>acc c. acc * radix + (case digitValue c of Some d \<Rightarrow> d | None \<Rightarrow> 0)) 0 ds"

definition parseInt :: "string \<Rightarrow> number" where
  "parseInt s =
     (let trimmed = dropWhile isWhiteSpace s;
          negative = (case trimmed of c # _ \<Rightarrow> c = CHR ''-'' | [] \<Rightarrow> False);
          unsigned = (case trimmed of
                        c # cs \<Rightarrow> if c = CHR ''-'' \<or> c = CHR ''+'' then cs else trimmed
                      | [] \<Rightarrow> []);
          hex = (take 2 unsigned = ''0x'' \<or> take 2 unsigned = ''0X'');
          radix = (if hex then 16 else 10);
          digits = takeWhile (isDigitOf radix) (if hex then drop 2 unsigned else unsigned)
      in if digits = [] then NaN
         else Finite ((if negative then -1 else 1) * of_nat (digitsValue radix digits)))"

text \<open>
  \<^verbatim>\<open>Date.prototype.setHours(h, m, s, 0)\<close> on the current date: the new time value, or
  \<^verbatim>\<open>NaN\<close> when an argument is not finite. The current date enters as the time value of its
  local midnight (a day without a clock change is assumed).
\<close>

definition setHours :: "rat \<Rightarrow> number \<Rightarrow> number \<Rightarrow> number \<Rightarrow> number" where
  "setHours localMidnight hours minutes seconds =
     (case (hours, minutes, seconds) of
        (Finite h, Finite m, Finite s) \<Rightarrow>
          Finite (localMidnight + h * 3600000 + m * 60000 + s * 1000)
      | _ \<Rightarrow> NaN)"

text \<open>\<^verbatim>\<open>parseTime\<close>: \<open>None\<close> is the \<^verbatim>\<open>undefined\<close> of the bare \<^verbatim>\<open>return\<close>.\<close>

definition parseTime :: "rat \<Rightarrow> string \<Rightarrow> number option" where
  "parseTime localMidnight timeString =
     (let parts = split CHR '':'' timeString in
      case (element parts 0, element parts 1, element parts 2) of
        (Some hours, Some minutes, Some seconds) \<Rightarrow>
          if hours \<noteq> [] \<and> minutes \<noteq> [] \<and> seconds \<noteq> []
          then Some (setHours localMidnight (parseInt hours) (parseInt minutes) (parseInt seconds))
          else None
      | _ \<Rightarrow> None)"

text \<open>
  \<^verbatim>\<open>printSyncHealth\<close> acts on the outside world only: the model gives the list of its actions,
  in order. The environment answers for what the program cannot decide: whether creating a
  client raises, whether a client fails to become ready within the deadline, and what
  \<^verbatim>\<open>pickPeers\<close> returns. The pass over one peer (the second \<^verbatim>\<open>try\<close> block: the statistics
  of \<open>computeSyncHealthMessageStats\<close>, \<open>investigateDiff\<close>, the appended
  \<open>serializedSummary\<close>, the closing of the peer's client) is the one action \<open>ReconcilePeer\<close>; it
  raises nothing, since the block catches.
\<close>

datatype Transport = Secure | Insecure

datatype Action =
  ConsoleLog string
  | GetRpcClient Transport string
  | WaitForReady Transport string
  | PickPeers nat
  | ReconcilePeer string number number
  | CloseClient string
  | Raise

record Environment =
  localMidnight :: rat
  clientRaises :: "Transport \<Rightarrow> string \<Rightarrow> bool"
  notReady :: "Transport \<Rightarrow> string \<Rightarrow> bool"
  peersPicked :: "HubError + string option list"

text \<open>
  The connection step of one peer, the first \<^verbatim>\<open>try\<close> block: the insecure client is created
  and its readiness awaited by a callback; when the block raises, or when the callback is
  given an error, the secure client is created. The callback runs later, while the pass is
  under way; the list places its action with the step that registers it. The result says
  also whether an exception escapes (the secure client of the \<^verbatim>\<open>catch\<close> raising).
\<close>

definition connectPeer :: "Environment \<Rightarrow> string \<Rightarrow> Action list \<times> bool" where
  "connectPeer env peerAddress =
     (if clientRaises env Insecure peerAddress then
        (if clientRaises env Secure peerAddress
         then ([GetRpcClient Insecure peerAddress, GetRpcClient Secure peerAddress, Raise], True)
         else ([GetRpcClient Insecure peerAddress, GetRpcClient Secure peerAddress], False))
      else
        ([GetRpcClient Insecure peerAddress, WaitForReady Insecure peerAddress]
           @ (if notReady env Insecure peerAddress then [GetRpcClient Secure peerAddress] else []),
         False))"

fun forEachPeer :: "Environment \<Rightarrow> number \<Rightarrow> number \<Rightarrow> string option list \<Rightarrow> Action list \<times> bool" where
  "forEachPeer env start stop [] = ([], False)"
| "forEachPeer env start stop (None # peers) = forEachPeer env start stop peers"
| "forEachPeer env start stop (Some peerAddress # peers) =
     (case connectPeer env peerAddress of
        (actions, True) \<Rightarrow> (actions, True)
      | (actions, False) \<Rightarrow>
          (case forEachPeer env start stop peers of
             (later, raised) \<Rightarrow>
               (actions @ [ConsoleLog ''Connecting to peer'',
                           ReconcilePeer peerAddress start stop] @ later, raised)))"

definition printSyncHealth :: "Environment \<Rightarrow> string \<Rightarrow> string \<Rightarrow> nat \<Rightarrow> string \<Rightarrow> string
      \<Rightarrow> Action list" where
  "printSyncHealth env startTimeOfDay stopTimeOfDay maxNumPeers primaryNode outfile =
     (case (parseTime (localMidnight env) startTimeOfDay,
            parseTime (localMidnight env) stopTimeOfDay) of
        (Some start, Some stop) \<Rightarrow>
          ConsoleLog ''Start time'' # GetRpcClient Secure primaryNode #
          (if clientRaises env Secure primaryNode then [Raise]
           else WaitForReady Secure primaryNode #
             (if notReady env Secure primaryNode
              then [ConsoleLog ''Primary rpc client not ready'', Raise]
              else PickPeers maxNumPeers #
                (case peersPicked env of
                   Inl e \<Rightarrow> [ConsoleLog ''Error querying peers'']
                 | Inr peers \<Rightarrow>
                     (case forEachPeer env start stop peers of
                        (actions, True) \<Rightarrow> actions
                      | (actions, False) \<Rightarrow> actions @ [CloseClient primaryNode]))))
      | _ \<Rightarrow> [ConsoleLog ''Unable to parse time, must specify as HH:MM:SS''])"

section \<open>Notions used in the statements\<close>

text \<open>
  Modelled from the spec: \<^verbatim>\<open>SyncId\<close> (\<^verbatim>\<open>network/sync/syncId\<close>) is missing from the sources
  at hand. By the specification the time prefix is a boundary of trie keys, so that trie
  order is chronological order: the key of a record is the time prefix of its timestamp
  followed by the rest of the identifier. A replica is given by its messages, each a
  timestamp and the rest of its identifier.
\<close>

definition syncIdBytes :: "nat \<Rightarrow> Buffer \<Rightarrow> Buffer" where
  "syncIdBytes timestamp rest = timestampToPaddedTimestampPrefix timestamp @ rest"

definition syncEngineOf :: "(nat \<times> Buffer) list \<Rightarrow> SyncEngine" where
  "syncEngineOf msgs = map (\<lambda>(timestamp, rest). syncIdBytes timestamp rest) msgs"

text \<open>The true number of the messages whose timestamps lie in the window from \<open>a\<close> to \<open>b\<close>.\<close>

definition numMessagesInWindow :: "nat \<Rightarrow> nat \<Rightarrow> (nat \<times> Buffer) list \<Rightarrow> nat" where
  "numMessagesInWindow a b msgs = length (filter (\<lambda>(t, r). a \<le> t \<and> t < b) msgs)"


text \<open>A key lies in the window of two time prefixes when its own time prefix does.\<close>

definition inWindow :: "Buffer \<Rightarrow> Buffer \<Rightarrow> Buffer \<Rightarrow> bool" where
  "inWindow startPrefix stopPrefix k =
     (Buffer_compare (take TIMESTAMP_LENGTH k) startPrefix \<noteq> -1
      \<and> Buffer_compare (take TIMESTAMP_LENGTH k) stopPrefix = -1)"

text \<open>The number of visited nodes a key lies under.\<close>

definition coveredBy :: "Buffer list \<Rightarrow> Buffer \<Rightarrow> nat" where
  "coveredBy visited k = length (filter (\<lambda>v. Sublist.prefix v k) visited)"

text \<open>
  An instance of the parameter \<^verbatim>\<open>toFarcasterTime\<close> for the worked examples: the time itself,
  counted from the epoch in protocol units; a time before the epoch or not finite fails.
\<close>

definition exampleFarcasterTime :: "number \<Rightarrow> HubError + nat" where
  "exampleFarcasterTime time =
     (case time of
        Finite t \<Rightarrow>
          if t < 0 then Inl (HubError ''bad_request.invalid_param'' ''time must be after the epoch'')
          else Inr (nat \<lfloor>t\<rfloor>)
      | _ \<Rightarrow> Inl (HubError ''bad_request.invalid_param'' ''time is not finite''))"

section \<open>Replicas that record their calls\<close>

text \<open>
  For the statements about remote calls, a client whose world is the list of the calls made
  so far: each call appends itself, with the name of the client, and answers as the replica
  behind it does. The answer of a replica is a function of the request alone: it does not
  change with the calls made before.
\<close>

datatype RpcCall =
  GetSyncMetadataByPrefix Buffer
  | GetAllSyncIdsByPrefix Buffer
  | GetAllMessagesBySyncIds "Buffer list"
  | SubmitMessage Message

record Replica =
  metadataByPrefix :: "Buffer \<Rightarrow> HubError + TrieNodeMetadataResponse"
  syncIdsByPrefix :: "Buffer \<Rightarrow> HubError + Buffer list"
  messagesBySyncIds :: "Buffer list \<Rightarrow> HubError + Message list"
  submitResult :: "Message \<Rightarrow> HubError + Message"

definition recordingClient :: "string \<Rightarrow> Replica \<Rightarrow> ((string \<times> RpcCall) list) HubRpcClient" where
  "recordingClient name replica =
     \<lparr>getSyncMetadataByPrefix =
        (\<lambda>p calls. (metadataByPrefix replica p, calls @ [(name, GetSyncMetadataByPrefix p)])),
      getAllSyncIdsByPrefix =
        (\<lambda>p calls. (syncIdsByPrefix replica p, calls @ [(name, GetAllSyncIdsByPrefix p)])),
      getAllMessagesBySyncIds =
        (\<lambda>ids calls. (messagesBySyncIds replica ids,
                       calls @ [(name, GetAllMessagesBySyncIds ids)])),
      submitMessage =
        (\<lambda>m calls. (submitResult replica m, calls @ [(name, SubmitMessage m)]))\<rparr>"

text \<open>
  A replica over a trie of messages: metadata as the trie model gives it, the identifiers
  under a prefix (except under the prefixes listed as failing, whose fetch misses its
  deadline), a message per identifier, and every submission accepted.
\<close>

definition trieReplica :: "(nat \<times> Buffer) list \<Rightarrow> Buffer list \<Rightarrow> Replica" where
  "trieReplica msgs failing =
     \<lparr>metadataByPrefix =
        (\<lambda>p. case getTrieNodeMetadata (syncEngineOf msgs) p of
                Some result \<Rightarrow> Inr result
              | None \<Rightarrow> Inl (HubError ''unavailable'' ''Missing metadata for node'')),
      syncIdsByPrefix =
        (\<lambda>p. if p \<in> set failing then Inl (HubError ''unavailable'' ''deadline exceeded'')
              else Inr (filter (Sublist.prefix p) (syncEngineOf msgs))),
      messagesBySyncIds = (\<lambda>ids. Inr (map (\<lambda>syncId. Message syncId None) ids)),
      submitResult = Inr\<rparr>"

section \<open>Buffers and time prefixes: lemmas\<close>

lemma Buffer_compare_eq_0: "Buffer_compare a b = 0 \<longleftrightarrow> a = b"
  by (induction a b rule: Buffer_compare.induct) auto

lemma digitsFixed_length [simp]: "length (digitsFixed w n) = w"
  by (induction w arbitrary: n) auto

lemma digitsFixed_zero: "digitsFixed w 0 = replicate w (digitByte 0)"
  by (induction w) (auto simp: replicate_append_same)

lemma padStart_snoc:
  "length xs < w \<Longrightarrow> padStart w z (xs @ [d]) = padStart (w - 1) z xs @ [d]"
  by (simp add: padStart_def)

lemma toString_length: "0 < w \<Longrightarrow> n < 10 ^ w \<Longrightarrow> length (toString n) \<le> w"
proof (induction n arbitrary: w rule: toString.induct)
  case (1 n)
  show ?case
  proof (cases "n < 10")
    case True
    with 1(2) show ?thesis by (simp add: toString.simps [of n])
  next
    case False
    obtain w' where w: "w = Suc w'" using 1(2) by (cases w) auto
    have "0 < w'" using False 1(3) w by (cases w') auto
    moreover have "n div 10 < 10 ^ w'" using 1(3) w by (simp add: less_mult_imp_div_less)
    ultimately have "length (toString (n div 10)) \<le> w'" using 1(1) [OF False] by blast
    with False w show ?thesis by (simp add: toString.simps [of n])
  qed
qed

lemma padStart_toString:
  "0 < w \<Longrightarrow> n < 10 ^ w \<Longrightarrow> padStart w (digitByte 0) (toString n) = digitsFixed w n"
proof (induction n arbitrary: w rule: toString.induct)
  case (1 n)
  obtain w' where w: "w = Suc w'" using 1(2) by (cases w) auto
  show ?case
  proof (cases "n < 10")
    case True
    then show ?thesis
      by (simp add: toString.simps [of n] w padStart_def digitsFixed_zero)
  next
    case False
    have w'pos: "0 < w'" using False 1(3) w by (cases w') auto
    have small: "n div 10 < 10 ^ w'" using 1(3) w by (simp add: less_mult_imp_div_less)
    have len: "length (toString (n div 10)) < w"
      using toString_length [OF w'pos small] w by simp
    have "padStart w (digitByte 0) (toString n)
            = padStart w' (digitByte 0) (toString (n div 10)) @ [digitByte (n mod 10)]"
      using False padStart_snoc [OF len] w by (simp add: toString.simps [of n])
    also have "padStart w' (digitByte 0) (toString (n div 10)) = digitsFixed w' (n div 10)"
      using 1(1) [OF False w'pos small] .
    finally show ?thesis by (simp add: w)
  qed
qed

lemma Buffer_compare_snoc:
  "length xs = length ys \<Longrightarrow>
   Buffer_compare (xs @ [x]) (ys @ [y])
     = (if Buffer_compare xs ys \<noteq> 0 then Buffer_compare xs ys
        else if x < y then -1 else if y < x then 1 else 0)"
  by (induction xs ys rule: list_induct2) auto




lemma digitByte_less: "d < 10 \<Longrightarrow> e < 10 \<Longrightarrow> digitByte d < digitByte e \<longleftrightarrow> d < e"
proof -
  have "unat (of_nat (48 + d) :: byte) = 48 + d" if "d < 10" for d
    using that by (subst unat_of_nat) simp
  then show "d < 10 \<Longrightarrow> e < 10 \<Longrightarrow> ?thesis"
    unfolding digitByte_def word_less_nat_alt by simp
qed

lemma div_mod_less_iff:
  "(a::nat) < b \<longleftrightarrow> a div 10 < b div 10 \<or> (a div 10 = b div 10 \<and> a mod 10 < b mod 10)"
proof -
  have "a = 10 * (a div 10) + a mod 10" "b = 10 * (b div 10) + b mod 10" by simp_all
  moreover have "a mod 10 < 10" "b mod 10 < 10" by simp_all
  ultimately show ?thesis by linarith
qed

lemma digitsFixed_compare:
  "a < 10 ^ w \<Longrightarrow> b < 10 ^ w \<Longrightarrow>
   Buffer_compare (digitsFixed w a) (digitsFixed w b)
     = (if a < b then -1 else if b < a then 1 else 0)"
proof (induction w arbitrary: a b)
  case 0
  then show ?case by simp
next
  case (Suc w)
  have a: "a div 10 < 10 ^ w" and b: "b div 10 < 10 ^ w"
    using Suc.prems by (simp_all add: less_mult_imp_div_less)
  have ma: "a mod 10 < 10" and mb: "b mod 10 < 10" by simp_all
  show ?case
    using Suc.IH [OF a b] digitByte_less [OF ma mb] digitByte_less [OF mb ma]
      div_mod_less_iff [of a b] div_mod_less_iff [of b a]
    by (simp add: Buffer_compare_snoc)
qed




lemma Buffer_compare_cases: "Buffer_compare a b = -1 \<or> Buffer_compare a b = 0 \<or> Buffer_compare a b = 1"
  by (induction a b rule: Buffer_compare.induct) auto

lemma Buffer_compare_refl [simp]: "Buffer_compare a a = 0"
  by (simp add: Buffer_compare_eq_0)

lemma Buffer_compare_append_greater:
  "Buffer_compare c s = 1 \<Longrightarrow> Buffer_compare (c @ r) s = 1"
  by (induction c s rule: Buffer_compare.induct) (auto split: if_splits)

lemma Buffer_compare_append_less:
  "Buffer_compare c e = -1 \<Longrightarrow> \<not> Sublist.prefix c e \<Longrightarrow> Buffer_compare (c @ r) e = -1"
  by (induction c e rule: Buffer_compare.induct) (auto split: if_splits)

lemma Buffer_compare_extension:
  "r \<noteq> [] \<Longrightarrow> Buffer_compare (s @ r) s = 1"
  by (induction s) (auto simp: neq_Nil_conv)

lemma getCommonPrefix_prefix1: "Sublist.prefix (getCommonPrefix a b) a"
  by (induction a b rule: getCommonPrefix.induct) auto

lemma getCommonPrefix_prefix2: "Sublist.prefix (getCommonPrefix a b) b"
  by (induction a b rule: getCommonPrefix.induct) auto

lemma getCommonPrefix_same [simp]: "getCommonPrefix a a = a"
  by (induction a) auto

lemma getCommonPrefix_less_length:
  "Buffer_compare a b = -1 \<Longrightarrow> length a = length b \<Longrightarrow> length (getCommonPrefix a b) < length a"
  by (induction a b rule: getCommonPrefix.induct) (auto split: if_splits)

lemma getCommonPrefix_between:
  "Buffer_compare t a \<noteq> -1 \<Longrightarrow> Buffer_compare t b = -1 \<Longrightarrow> Sublist.prefix (getCommonPrefix a b) t"
proof (induction a b arbitrary: t rule: getCommonPrefix.induct)
  case (1 x xs y ys)
  show ?case
  proof (cases "x = y")
    case True
    then show ?thesis using 1 by (cases t) (auto split: if_splits)
  next
    case False
    then show ?thesis by simp
  qed
qed auto

section \<open>The trie and the window: lemmas\<close>

lemma coveredBy_simps [simp]:
  "coveredBy [] k = 0"
  "coveredBy (v # vs) k = (if Sublist.prefix v k then 1 else 0) + coveredBy vs k"
  "coveredBy (vs @ ws) k = coveredBy vs k + coveredBy ws k"
  by (simp_all add: coveredBy_def)

lemma prefix_take:
  "Sublist.prefix c k \<Longrightarrow> length c \<le> n \<Longrightarrow> \<exists>r. take n k = c @ r"
  by (auto elim!: prefixE)

lemma visit_start:
  assumes "length sp = TIMESTAMP_LENGTH" "Buffer_compare sp ep = -1" "Sublist.prefix sp k"
  shows "inWindow sp ep k"
proof -
  from assms(3) obtain r where "k = sp @ r" by (auto elim: prefixE)
  then have "take TIMESTAMP_LENGTH k = sp" using assms(1) by simp
  then show ?thesis using assms(2) by (simp add: inWindow_def)
qed

lemma visit_between:
  assumes "Buffer_compare c sp = 1" "Buffer_compare c ep = -1" "\<not> Sublist.prefix c ep"
    and "Sublist.prefix c k" "length c \<le> TIMESTAMP_LENGTH"
  shows "inWindow sp ep k"
proof -
  from prefix_take [OF assms(4,5)] obtain r where r: "take TIMESTAMP_LENGTH k = c @ r" ..
  show ?thesis
    unfolding inWindow_def r
    using Buffer_compare_append_greater [OF assms(1)] Buffer_compare_append_less [OF assms(2,3)]
    by simp
qed

lemma skip_outside:
  assumes "c \<noteq> sp" "\<not> Sublist.prefix c sp" "\<not> Sublist.prefix c ep"
    and "\<not> (Buffer_compare c sp = 1 \<and> Buffer_compare c ep = -1)"
    and "Sublist.prefix c k" "length c \<le> TIMESTAMP_LENGTH"
  shows "\<not> inWindow sp ep k"
proof -
  from prefix_take [OF assms(5,6)] obtain r where r: "take TIMESTAMP_LENGTH k = c @ r" ..
  have ne: "Buffer_compare c sp \<noteq> 0" using assms(1) by (simp add: Buffer_compare_eq_0)
  have ne': "Buffer_compare c ep \<noteq> 0" using assms(3) by (auto simp: Buffer_compare_eq_0)
  consider "Buffer_compare c sp = -1" | "Buffer_compare c sp = 1" "Buffer_compare c ep = 1"
    using Buffer_compare_cases [of c sp] Buffer_compare_cases [of c ep] ne ne' assms(4) by auto
  then show ?thesis
  proof cases
    case 1
    then show ?thesis
      unfolding inWindow_def r using Buffer_compare_append_less [OF 1 assms(2)] by simp
  next
    case 2
    then show ?thesis
      unfolding inWindow_def r using Buffer_compare_append_greater [OF 2(2)] by simp
  qed
qed

lemma below_stop_outside:
  assumes "length ep = TIMESTAMP_LENGTH" "Sublist.prefix ep k"
  shows "\<not> inWindow sp ep k"
proof -
  from assms(2) obtain r where "k = ep @ r" by (auto elim: prefixE)
  then have "take TIMESTAMP_LENGTH k = ep" using assms(1) by simp
  then show ?thesis by (simp add: inWindow_def)
qed

lemma prefix_snoc_unique:
  "Sublist.prefix (p @ [x]) k \<Longrightarrow> Sublist.prefix (p @ [y]) k \<Longrightarrow> x = y"
  by (auto simp: Sublist.prefix_def)

lemma prefix_snoc_iff:
  "Sublist.prefix (p @ [x]) k \<longleftrightarrow> Sublist.prefix p k \<and> length p < length k \<and> k ! length p = x"
proof
  assume "Sublist.prefix (p @ [x]) k"
  then obtain r where "k = p @ x # r" by (auto simp: Sublist.prefix_def)
  then show "Sublist.prefix p k \<and> length p < length k \<and> k ! length p = x" by simp
next
  assume a: "Sublist.prefix p k \<and> length p < length k \<and> k ! length p = x"
  then obtain r where k: "k = p @ r" by (auto simp: Sublist.prefix_def)
  with a obtain y r' where "r = y # r'" by (cases r) auto
  with a k show "Sublist.prefix (p @ [x]) k" by simp
qed

lemma numMessagesUnder_pos: "0 < numMessagesUnder ks p \<longleftrightarrow> (\<exists>k\<in>set ks. Sublist.prefix p k)"
  by (simp add: numMessagesUnder_def filter_empty_conv)

lemma nextBytes_distinct: "distinct (nextBytes ks p)"
  by (simp add: nextBytes_def)

lemma nextBytes_iff: "x \<in> set (nextBytes ks p) \<longleftrightarrow> (\<exists>k\<in>set ks. Sublist.prefix (p @ [x]) k)"
  by (auto simp: nextBytes_def prefix_snoc_iff)

lemma childNode_prefix [simp]: "prefix (childNode ks c) = c"
  by (simp add: childNode_def)

lemma childNode_numMessages [simp]: "numMessages (childNode ks c) = numMessagesUnder ks c"
  by (simp add: childNode_def)

lemma retriever_existing:
  "0 < numMessagesUnder ks p \<Longrightarrow>
   SyncEngineMetadataRetriever ks p queried
     = (Inr (TrieNodeMetadataResponse p (numMessagesUnder ks p)
               (map (\<lambda>b. childNode ks (p @ [b])) (nextBytes ks p))), queried @ [p])"
  by (simp add: SyncEngineMetadataRetriever_def getTrieNodeMetadata_def)

lemma retriever_missing:
  "numMessagesUnder ks p = 0 \<Longrightarrow>
   SyncEngineMetadataRetriever ks p queried
     = (Inl (HubError ''unavailable'' ''Missing metadata for node''), queried @ [p])"
  by (simp add: SyncEngineMetadataRetriever_def getTrieNodeMetadata_def)

section \<open>The traversal on a trie\<close>

lemma prefix_same_length: "Sublist.prefix a b \<Longrightarrow> length a = length b \<Longrightarrow> a = b"
  by (auto simp: Sublist.prefix_def)

lemma traverseChildren_trie:
  fixes f :: "TrieNodeMetadataResponse \<Rightarrow> 's \<Rightarrow> 's"
  assumes lens: "length sp = TIMESTAMP_LENGTH" "length ep = TIMESTAMP_LENGTH"
    and node: "(length p < TIMESTAMP_LENGTH \<and> Buffer_compare sp ep = -1) \<or> p = ep"
    and rec: "\<And>c s queried.
        (length c < TIMESTAMP_LENGTH \<and> Buffer_compare sp ep = -1) \<or> c = ep \<Longrightarrow>
        length c = Suc (length p) \<Longrightarrow> 0 < numMessagesUnder ks c \<Longrightarrow>
        \<exists>ps qs. traverseRange n (SyncEngineMetadataRetriever ks) (childNode ks c) sp ep f s queried
                   = Some (Inr (), fold f (map (childNode ks) ps) s, queried @ c # qs)
          \<and> (\<forall>k\<in>set ks. coveredBy ps k = (if Sublist.prefix c k \<and> inWindow sp ep k then 1 else 0))
          \<and> (\<forall>q\<in>set qs. strict_prefix c q) \<and> distinct qs"
    and xs: "distinct xs" "\<forall>x\<in>set xs. 0 < numMessagesUnder ks (p @ [x])"
  shows "\<exists>ps qs. traverseChildren n (SyncEngineMetadataRetriever ks)
                    (map (\<lambda>b. childNode ks (p @ [b])) xs) sp ep f s queried
                   = Some (fold f (map (childNode ks) ps) s, queried @ qs)
          \<and> (\<forall>k\<in>set ks. coveredBy ps k
                = (if (\<exists>x\<in>set xs. Sublist.prefix (p @ [x]) k) \<and> inWindow sp ep k then 1 else 0))
          \<and> (\<forall>q\<in>set qs. \<exists>x\<in>set xs. Sublist.prefix (p @ [x]) q) \<and> distinct qs"
  using xs
proof (induction xs arbitrary: s queried)
  case Nil
  have "traverseChildren n (SyncEngineMetadataRetriever ks) [] sp ep f s queried
          = Some (fold f (map (childNode ks) []) s, queried @ [])" by simp
  then show ?case by (intro exI [of _ "[]"]) simp
next
  case (Cons x xs)
  let ?R = "SyncEngineMetadataRetriever ks"
  let ?c = "p @ [x]"
  let ?rest = "map (\<lambda>b. childNode ks (p @ [b])) xs"
  have dxs: "distinct xs" and pos: "\<forall>x\<in>set xs. 0 < numMessagesUnder ks (p @ [x])"
    and xnew: "x \<notin> set xs" and cpos: "0 < numMessagesUnder ks ?c"
    using Cons.prems by auto
  note IH = Cons.IH [OF dxs pos]
  have other: "\<not> Sublist.prefix (p @ [y]) k" if "Sublist.prefix ?c k" "y \<in> set xs" for y k
    using that xnew prefix_snoc_unique [of p x k y] by auto
  have stopchild: "Buffer_compare ?c ep = 1" "\<not> Sublist.prefix ?c sp" "\<not> Sublist.prefix ?c ep"
    "?c \<noteq> sp" if "p = ep"
    using that lens Buffer_compare_extension [of "[x]" ep] by (auto dest: prefix_length_le)
  have stopout: "\<not> inWindow sp ep k" if "p = ep" "Sublist.prefix ?c k" for k
  proof -
    have "Sublist.prefix ep k" using that by (auto simp: Sublist.prefix_def)
    then show ?thesis by (rule below_stop_outside [OF lens(2)])
  qed
  consider (start) "Buffer_compare ?c sp = 0"
    | (descend) "Buffer_compare ?c sp \<noteq> 0" "isPrefix sp ?c \<or> isPrefix ep ?c"
    | (inside) "Buffer_compare ?c sp \<noteq> 0" "\<not> (isPrefix sp ?c \<or> isPrefix ep ?c)"
        "Buffer_compare ?c sp = 1 \<and> Buffer_compare ?c ep = -1"
    | (outside) "Buffer_compare ?c sp \<noteq> 0" "\<not> (isPrefix sp ?c \<or> isPrefix ep ?c)"
        "\<not> (Buffer_compare ?c sp = 1 \<and> Buffer_compare ?c ep = -1)"
    by blast
  then show ?case
  proof cases
    case start
    then have csp: "?c = sp" by (simp add: Buffer_compare_eq_0)
    then have "p \<noteq> ep" using lens by auto
    then have lt: "Buffer_compare sp ep = -1" using node by auto
    from IH [of "f (childNode ks ?c) s" queried] obtain ps qs where
      run: "traverseChildren n ?R ?rest sp ep f (f (childNode ks ?c) s) queried
              = Some (fold f (map (childNode ks) ps) (f (childNode ks ?c) s), queried @ qs)"
      and cov: "\<forall>k\<in>set ks. coveredBy ps k
                = (if (\<exists>x\<in>set xs. Sublist.prefix (p @ [x]) k) \<and> inWindow sp ep k then 1 else 0)"
      and qs: "\<forall>q\<in>set qs. \<exists>x\<in>set xs. Sublist.prefix (p @ [x]) q" "distinct qs"
      by blast
    have win: "inWindow sp ep k" if "Sublist.prefix ?c k" for k
      using visit_start [OF lens(1) lt] that csp by simp
    have "traverseChildren n ?R (map (\<lambda>b. childNode ks (p @ [b])) (x # xs)) sp ep f s queried
            = Some (fold f (map (childNode ks) (?c # ps)) s, queried @ qs)"
      using start run by simp
    moreover have "\<forall>k\<in>set ks. coveredBy (?c # ps) k
        = (if (\<exists>y\<in>set (x # xs). Sublist.prefix (p @ [y]) k) \<and> inWindow sp ep k then 1 else 0)"
      using cov win other by auto
    moreover have "\<forall>q\<in>set qs. \<exists>y\<in>set (x # xs). Sublist.prefix (p @ [y]) q"
      using qs(1) by auto
    ultimately show ?thesis using qs(2) by blast
  next
    case descend
    have cne: "?c \<noteq> sp" using descend(1) by (simp add: Buffer_compare_eq_0)
    have pne: "p \<noteq> ep" using descend(2) stopchild by (auto simp: isPrefix_def)
    then have lt: "Buffer_compare sp ep = -1" and lp: "length p < TIMESTAMP_LENGTH"
      using node by auto
    have "length ?c < TIMESTAMP_LENGTH \<or> ?c = ep"
    proof (cases "length ?c < TIMESTAMP_LENGTH")
      case True
      then show ?thesis by simp
    next
      case False
      then have full: "length ?c = TIMESTAMP_LENGTH" using lp by simp
      have "?c = sp \<or> ?c = ep"
        using descend(2) full lens
        by (auto simp: isPrefix_def dest: prefix_same_length)
      then show ?thesis using cne by simp
    qed
    then have ok: "(length ?c < TIMESTAMP_LENGTH \<and> Buffer_compare sp ep = -1) \<or> ?c = ep"
      using lt by auto
    from rec [OF ok _ cpos, of s queried] obtain ps1 qs1 where
      run1: "traverseRange n ?R (childNode ks ?c) sp ep f s queried
               = Some (Inr (), fold f (map (childNode ks) ps1) s, queried @ ?c # qs1)"
      and cov1: "\<forall>k\<in>set ks. coveredBy ps1 k
                  = (if Sublist.prefix ?c k \<and> inWindow sp ep k then 1 else 0)"
      and qs1: "\<forall>q\<in>set qs1. strict_prefix ?c q" "distinct qs1"
      by auto
    from IH [of "fold f (map (childNode ks) ps1) s" "queried @ ?c # qs1"] obtain ps2 qs2 where
      run2: "traverseChildren n ?R ?rest sp ep f (fold f (map (childNode ks) ps1) s)
               (queried @ ?c # qs1)
              = Some (fold f (map (childNode ks) ps2) (fold f (map (childNode ks) ps1) s),
                      (queried @ ?c # qs1) @ qs2)"
      and cov2: "\<forall>k\<in>set ks. coveredBy ps2 k
                = (if (\<exists>x\<in>set xs. Sublist.prefix (p @ [x]) k) \<and> inWindow sp ep k then 1 else 0)"
      and qs2: "\<forall>q\<in>set qs2. \<exists>x\<in>set xs. Sublist.prefix (p @ [x]) q" "distinct qs2"
      by blast
    have "traverseChildren n ?R (map (\<lambda>b. childNode ks (p @ [b])) (x # xs)) sp ep f s queried
            = Some (fold f (map (childNode ks) (ps1 @ ps2)) s, queried @ (?c # qs1 @ qs2))"
      using descend run1 run2 by simp
    moreover have "\<forall>k\<in>set ks. coveredBy (ps1 @ ps2) k
        = (if (\<exists>y\<in>set (x # xs). Sublist.prefix (p @ [y]) k) \<and> inWindow sp ep k then 1 else 0)"
      using cov1 cov2 other by auto
    moreover have "\<forall>q\<in>set (?c # qs1 @ qs2). \<exists>y\<in>set (x # xs). Sublist.prefix (p @ [y]) q"
      using qs1(1) qs2(1) by (auto simp: strict_prefix_def)
    moreover have "distinct (?c # qs1 @ qs2)"
    proof -
      have "?c \<notin> set qs1" using qs1(1) by auto
      moreover have "q \<notin> set qs2" if "Sublist.prefix ?c q" for q
        using qs2(1) other [OF that] by auto
      ultimately show ?thesis using qs1 qs2(2) by (auto simp: strict_prefix_def)
    qed
    ultimately show ?thesis by blast
  next
    case inside
    have notstop: "\<not> Sublist.prefix ?c ep" using inside(2) by (simp add: isPrefix_def)
    have pne: "p \<noteq> ep" using inside(3) stopchild(1) by auto
    then have lc: "length ?c \<le> TIMESTAMP_LENGTH" using node by auto
    from IH [of "f (childNode ks ?c) s" queried] obtain ps qs where
      run: "traverseChildren n ?R ?rest sp ep f (f (childNode ks ?c) s) queried
              = Some (fold f (map (childNode ks) ps) (f (childNode ks ?c) s), queried @ qs)"
      and cov: "\<forall>k\<in>set ks. coveredBy ps k
                = (if (\<exists>x\<in>set xs. Sublist.prefix (p @ [x]) k) \<and> inWindow sp ep k then 1 else 0)"
      and qs: "\<forall>q\<in>set qs. \<exists>x\<in>set xs. Sublist.prefix (p @ [x]) q" "distinct qs"
      by blast
    have win: "inWindow sp ep k" if "Sublist.prefix ?c k" for k
      using visit_between [OF _ _ notstop that lc] inside(3) by simp
    have "traverseChildren n ?R (map (\<lambda>b. childNode ks (p @ [b])) (x # xs)) sp ep f s queried
            = Some (fold f (map (childNode ks) (?c # ps)) s, queried @ qs)"
      using inside run by simp
    moreover have "\<forall>k\<in>set ks. coveredBy (?c # ps) k
        = (if (\<exists>y\<in>set (x # xs). Sublist.prefix (p @ [y]) k) \<and> inWindow sp ep k then 1 else 0)"
      using cov win other by auto
    moreover have "\<forall>q\<in>set qs. \<exists>y\<in>set (x # xs). Sublist.prefix (p @ [y]) q"
      using qs(1) by auto
    ultimately show ?thesis using qs(2) by blast
  next
    case outside
    from IH [of s queried] obtain ps qs where
      run: "traverseChildren n ?R ?rest sp ep f s queried
              = Some (fold f (map (childNode ks) ps) s, queried @ qs)"
      and cov: "\<forall>k\<in>set ks. coveredBy ps k
                = (if (\<exists>x\<in>set xs. Sublist.prefix (p @ [x]) k) \<and> inWindow sp ep k then 1 else 0)"
      and qs: "\<forall>q\<in>set qs. \<exists>x\<in>set xs. Sublist.prefix (p @ [x]) q" "distinct qs"
      by blast
    have out: "\<not> inWindow sp ep k" if pk: "Sublist.prefix ?c k" for k
    proof (cases "p = ep")
      case True
      then show ?thesis using stopout pk by simp
    next
      case False
      then have lc: "length ?c \<le> TIMESTAMP_LENGTH" using node by auto
      have "?c \<noteq> sp" using outside(1) by (simp add: Buffer_compare_eq_0)
      then show ?thesis
        using skip_outside [OF _ _ _ outside(3) pk lc] outside(2) by (simp add: isPrefix_def)
    qed
    have "traverseChildren n ?R (map (\<lambda>b. childNode ks (p @ [b])) (x # xs)) sp ep f s queried
            = Some (fold f (map (childNode ks) ps) s, queried @ qs)"
      using outside run by auto
    moreover have "\<forall>k\<in>set ks. coveredBy ps k
        = (if (\<exists>y\<in>set (x # xs). Sublist.prefix (p @ [y]) k) \<and> inWindow sp ep k then 1 else 0)"
      using cov out by auto
    moreover have "\<forall>q\<in>set qs. \<exists>y\<in>set (x # xs). Sublist.prefix (p @ [y]) q"
      using qs(1) by auto
    ultimately show ?thesis using qs(2) by blast
  qed
qed

lemma traverseRange_trie:
  fixes f :: "TrieNodeMetadataResponse \<Rightarrow> 's \<Rightarrow> 's"
  assumes keys: "\<forall>k\<in>set ks. TIMESTAMP_LENGTH \<le> length k"
    and lens: "length sp = TIMESTAMP_LENGTH" "length ep = TIMESTAMP_LENGTH"
  shows "prefix node = p \<Longrightarrow>
     (length p < TIMESTAMP_LENGTH \<and> Buffer_compare sp ep = -1) \<or> p = ep \<Longrightarrow>
     0 < numMessagesUnder ks p \<Longrightarrow> TIMESTAMP_LENGTH < n + length p \<Longrightarrow>
     \<exists>ps qs. traverseRange n (SyncEngineMetadataRetriever ks) node sp ep f s queried
                = Some (Inr (), fold f (map (childNode ks) ps) s, queried @ p # qs)
       \<and> (\<forall>k\<in>set ks. coveredBy ps k = (if Sublist.prefix p k \<and> inWindow sp ep k then 1 else 0))
       \<and> (\<forall>q\<in>set qs. strict_prefix p q) \<and> distinct qs"
proof (induction n arbitrary: node p s queried)
  case 0
  then have "length p \<le> TIMESTAMP_LENGTH" using lens by auto
  with 0 show ?case by simp
next
  case (Suc n)
  let ?R = "SyncEngineMetadataRetriever ks"
  let ?kids = "map (\<lambda>b. childNode ks (p @ [b])) (nextBytes ks p)"
  have get: "?R (prefix node) queried
      = (Inr (TrieNodeMetadataResponse p (numMessagesUnder ks p) ?kids), queried @ [p])"
    using Suc.prems(1,3) retriever_existing by simp
  have pos: "\<forall>x\<in>set (nextBytes ks p). 0 < numMessagesUnder ks (p @ [x])"
    by (simp add: nextBytes_iff numMessagesUnder_pos)
  have rec: "\<exists>ps qs. traverseRange n ?R (childNode ks c) sp ep f s' queried'
                   = Some (Inr (), fold f (map (childNode ks) ps) s', queried' @ c # qs)
          \<and> (\<forall>k\<in>set ks. coveredBy ps k = (if Sublist.prefix c k \<and> inWindow sp ep k then 1 else 0))
          \<and> (\<forall>q\<in>set qs. strict_prefix c q) \<and> distinct qs"
    if "(length c < TIMESTAMP_LENGTH \<and> Buffer_compare sp ep = -1) \<or> c = ep"
      "length c = Suc (length p)" "0 < numMessagesUnder ks c" for c s' queried'
    using Suc.IH [of "childNode ks c" c s' queried'] that Suc.prems(4) by simp
  from traverseChildren_trie [OF lens Suc.prems(2) rec nextBytes_distinct pos,
      where s = s and queried = "queried @ [p]"]
  obtain ps qs where
    run: "traverseChildren n ?R ?kids sp ep f s (queried @ [p])
            = Some (fold f (map (childNode ks) ps) s, (queried @ [p]) @ qs)"
    and cov: "\<forall>k\<in>set ks. coveredBy ps k
        = (if (\<exists>x\<in>set (nextBytes ks p). Sublist.prefix (p @ [x]) k) \<and> inWindow sp ep k
           then 1 else 0)"
    and qs: "\<forall>q\<in>set qs. \<exists>x\<in>set (nextBytes ks p). Sublist.prefix (p @ [x]) q" "distinct qs"
    by blast
  have "traverseRange (Suc n) ?R node sp ep f s queried
          = Some (Inr (), fold f (map (childNode ks) ps) s, queried @ p # qs)"
    using get run by simp
  moreover have "\<forall>k\<in>set ks. coveredBy ps k
      = (if Sublist.prefix p k \<and> inWindow sp ep k then 1 else 0)"
  proof
    fix k assume k: "k \<in> set ks"
    have "(\<exists>x\<in>set (nextBytes ks p). Sublist.prefix (p @ [x]) k) \<and> inWindow sp ep k
            \<longleftrightarrow> Sublist.prefix p k \<and> inWindow sp ep k"
    proof (cases "p = ep")
      case True
      then show ?thesis
        using below_stop_outside [OF lens(2), of k sp] by (auto simp: prefix_snoc_iff)
    next
      case False
      then have "length p < length k" using Suc.prems(2) keys k by auto
      then show ?thesis using k by (auto simp: nextBytes_iff prefix_snoc_iff)
    qed
    then show "coveredBy ps k = (if Sublist.prefix p k \<and> inWindow sp ep k then 1 else 0)"
      using cov k by simp
  qed
  moreover have "\<forall>q\<in>set qs. strict_prefix p q"
    using qs(1) by (auto simp: strict_prefix_def prefix_snoc_iff)
  ultimately show ?case using qs(2) by blast
qed

lemma prefix_of_take: "Sublist.prefix c (take n k) \<Longrightarrow> Sublist.prefix c k"
  by (metis append_take_drop_id prefix_prefix)

lemma traverseRange_from_common_prefix:
  fixes f :: "TrieNodeMetadataResponse \<Rightarrow> 's \<Rightarrow> 's"
  assumes keys: "\<forall>k\<in>set ks. TIMESTAMP_LENGTH \<le> length k"
    and lens: "length sp = TIMESTAMP_LENGTH" "length ep = TIMESTAMP_LENGTH"
    and order: "Buffer_compare sp ep \<noteq> 1"
    and root: "prefix node = getCommonPrefix sp ep" "0 < numMessagesUnder ks (getCommonPrefix sp ep)"
    and fuel: "TIMESTAMP_LENGTH < n"
  shows "\<exists>ps qs. traverseRange n (SyncEngineMetadataRetriever ks) node sp ep f s queried
                = Some (Inr (), fold f (map (childNode ks) ps) s,
                        queried @ getCommonPrefix sp ep # qs)
       \<and> (\<forall>k\<in>set ks. coveredBy ps k = (if inWindow sp ep k then 1 else 0))
       \<and> (\<forall>q\<in>set qs. strict_prefix (getCommonPrefix sp ep) q) \<and> distinct qs"
proof -
  let ?cp = "getCommonPrefix sp ep"
  have node: "(length ?cp < TIMESTAMP_LENGTH \<and> Buffer_compare sp ep = -1) \<or> ?cp = ep"
  proof (cases "sp = ep")
    case True
    then show ?thesis by simp
  next
    case False
    then have "Buffer_compare sp ep = -1"
      using order Buffer_compare_cases [of sp ep] by (auto simp: Buffer_compare_eq_0)
    then show ?thesis using getCommonPrefix_less_length [of sp ep] lens by simp
  qed
  have "TIMESTAMP_LENGTH < n + length ?cp" using fuel by simp
  from traverseRange_trie [OF keys lens root(1) node root(2) this, of f s queried]
  obtain ps qs where
    run: "traverseRange n (SyncEngineMetadataRetriever ks) node sp ep f s queried
            = Some (Inr (), fold f (map (childNode ks) ps) s, queried @ ?cp # qs)"
    and cov: "\<forall>k\<in>set ks. coveredBy ps k
        = (if Sublist.prefix ?cp k \<and> inWindow sp ep k then 1 else 0)"
    and qs: "\<forall>q\<in>set qs. strict_prefix ?cp q" "distinct qs"
    by blast
  have "Sublist.prefix ?cp k" if "inWindow sp ep k" for k
    using that getCommonPrefix_between [of "take TIMESTAMP_LENGTH k" sp ep]
    by (auto simp: inWindow_def intro: prefix_of_take)
  with cov have "\<forall>k\<in>set ks. coveredBy ps k = (if inWindow sp ep k then 1 else 0)" by auto
  with run qs show ?thesis by blast
qed

lemma sum_list_indicator:
  "sum_list (map (\<lambda>k. if P k then 1 else 0) ks) = length (filter P ks)"
  by (induction ks) auto

lemma double_count:
  "sum_list (map (numMessagesUnder ks) ps) = sum_list (map (coveredBy ps) ks)"
proof (induction ps)
  case Nil
  show ?case by simp
next
  case (Cons p ps)
  have "numMessagesUnder ks p = length (filter (Sublist.prefix p) ks)"
    by (simp add: numMessagesUnder_def)
  then have "sum_list (map (numMessagesUnder ks) (p # ps))
      = length (filter (Sublist.prefix p) ks) + sum_list (map (coveredBy ps) ks)"
    using Cons by simp
  also have "\<dots> = sum_list (map (\<lambda>k. if Sublist.prefix p k then 1 else 0) ks)
      + sum_list (map (coveredBy ps) ks)"
    by (simp only: sum_list_indicator)
  also have "\<dots> = sum_list (map (\<lambda>k. (if Sublist.prefix p k then 1 else 0) + coveredBy ps k) ks)"
    by (simp only: sum_list_addf)
  also have "\<dots> = sum_list (map (coveredBy (p # ps)) ks)"
  proof -
    have "coveredBy (p # ps) = (\<lambda>k. (if Sublist.prefix p k then 1 else 0) + coveredBy ps k)"
      by (rule ext) simp
    then show ?thesis by (simp only:)
  qed
  finally show ?case .
qed

lemma fold_numMessages:
  "fold (\<lambda>node numMessages'. numMessages' + numMessages node) (map (childNode ks) ps) a
     = a + sum_list (map (numMessagesUnder ks) ps)"
  by (induction ps arbitrary: a) auto

lemma fold_collect:
  "fold (\<lambda>node collected. collected @ [prefix node]) (map (childNode ks) ps) acc = acc @ ps"
  by (induction ps arbitrary: acc) auto

lemma covered_count:
  assumes "\<forall>k\<in>set ks. coveredBy ps k = (if inWindow sp ep k then 1 else 0)"
  shows "sum_list (map (numMessagesUnder ks) ps) = length (filter (inWindow sp ep) ks)"
proof -
  have "map (coveredBy ps) ks = map (\<lambda>k. if inWindow sp ep k then 1 else 0) ks"
    by (rule map_cong) (use assms in auto)
  then have "sum_list (map (coveredBy ps) ks)
      = sum_list (map (\<lambda>k. if inWindow sp ep k then 1 else 0) ks)"
    by (simp only:)
  then show ?thesis by (simp only: double_count sum_list_indicator)
qed

lemma timePrefix_digits:
  "t < 10 ^ TIMESTAMP_LENGTH \<Longrightarrow> timestampToPaddedTimestampPrefix t = digitsFixed TIMESTAMP_LENGTH t"
  unfolding timestampToPaddedTimestampPrefix_def
  by (rule padStart_toString) (simp_all add: TIMESTAMP_LENGTH_def)

lemma timePrefix_length:
  "t < 10 ^ TIMESTAMP_LENGTH \<Longrightarrow> length (timestampToPaddedTimestampPrefix t) = TIMESTAMP_LENGTH"
  by (simp add: timePrefix_digits)

lemma timePrefix_compare:
  "a < 10 ^ TIMESTAMP_LENGTH \<Longrightarrow> b < 10 ^ TIMESTAMP_LENGTH \<Longrightarrow>
   Buffer_compare (timestampToPaddedTimestampPrefix a) (timestampToPaddedTimestampPrefix b)
     = (if a < b then -1 else if b < a then 1 else 0)"
  by (simp only: timePrefix_digits digitsFixed_compare)

lemma inWindow_syncIdBytes:
  assumes "t < 10 ^ TIMESTAMP_LENGTH" "a < 10 ^ TIMESTAMP_LENGTH" "b < 10 ^ TIMESTAMP_LENGTH"
  shows "inWindow (timestampToPaddedTimestampPrefix a) (timestampToPaddedTimestampPrefix b)
           (syncIdBytes t r) \<longleftrightarrow> a \<le> t \<and> t < b"
proof -
  have "take TIMESTAMP_LENGTH (syncIdBytes t r) = timestampToPaddedTimestampPrefix t"
    using timePrefix_length [OF assms(1)] by (simp add: syncIdBytes_def)
  then show ?thesis
    using timePrefix_compare [OF assms(1,2)] timePrefix_compare [OF assms(1,3)]
    by (auto simp: inWindow_def)
qed

lemma syncEngineOf_keys:
  assumes "\<forall>(t, r)\<in>set msgs. t < 10 ^ TIMESTAMP_LENGTH"
  shows "\<forall>k\<in>set (syncEngineOf msgs). TIMESTAMP_LENGTH \<le> length k"
  using assms timePrefix_length by (fastforce simp: syncEngineOf_def syncIdBytes_def)

lemma filter_window_syncEngineOf:
  assumes "\<forall>(t, r)\<in>set msgs. t < 10 ^ TIMESTAMP_LENGTH"
    and "a < 10 ^ TIMESTAMP_LENGTH" "b < 10 ^ TIMESTAMP_LENGTH"
  shows "length (filter (inWindow (timestampToPaddedTimestampPrefix a)
                    (timestampToPaddedTimestampPrefix b)) (syncEngineOf msgs))
       = length (filter (\<lambda>(t, r). a \<le> t \<and> t < b) msgs)"
proof -
  have "filter ((inWindow (timestampToPaddedTimestampPrefix a) (timestampToPaddedTimestampPrefix b))
            \<circ> (\<lambda>(t, r). syncIdBytes t r)) msgs
      = filter (\<lambda>(t, r). a \<le> t \<and> t < b) msgs"
    by (rule filter_cong) (use assms inWindow_syncIdBytes in auto)
  then show ?thesis
    by (simp add: syncEngineOf_def filter_map)
qed

text \<open>The run of the span counter on a trie, with everything it leaves behind.\<close>

lemma span_counter_on_trie:
  assumes stamps: "\<forall>(t, r)\<in>set msgs. t < 10 ^ TIMESTAMP_LENGTH"
    and start: "toFarcasterTime startAt = Inr a" and stop: "toFarcasterTime stopAt = Inr b"
    and window: "a \<le> b" "b < 10 ^ TIMESTAMP_LENGTH"
    and root: "0 < numMessagesUnder (syncEngineOf msgs)
                 (getCommonPrefix (timestampToPaddedTimestampPrefix a)
                    (timestampToPaddedTimestampPrefix b))"
    and fuel: "TIMESTAMP_LENGTH < fuel"
  shows "\<exists>qs. getNumMessagesInSpanOptimized fuel (SyncEngineMetadataRetriever (syncEngineOf msgs))
            toFarcasterTime startAt stopAt queried
          = Some (Inr (length (filter (\<lambda>(t, r). a \<le> t \<and> t < b) msgs)),
              queried @ getCommonPrefix (timestampToPaddedTimestampPrefix a)
                          (timestampToPaddedTimestampPrefix b)
                # getCommonPrefix (timestampToPaddedTimestampPrefix a)
                          (timestampToPaddedTimestampPrefix b) # qs)
        \<and> distinct (getCommonPrefix (timestampToPaddedTimestampPrefix a)
                          (timestampToPaddedTimestampPrefix b) # qs)"
proof -
  let ?ks = "syncEngineOf msgs"
  let ?sp = "timestampToPaddedTimestampPrefix a"
  let ?ep = "timestampToPaddedTimestampPrefix b"
  let ?cp = "getCommonPrefix ?sp ?ep"
  let ?R = "SyncEngineMetadataRetriever ?ks"
  let ?node = "TrieNodeMetadataResponse ?cp (numMessagesUnder ?ks ?cp)
                 (map (\<lambda>b. childNode ?ks (?cp @ [b])) (nextBytes ?ks ?cp))"
  have a: "a < 10 ^ TIMESTAMP_LENGTH" using window by simp
  have lens: "length ?sp = TIMESTAMP_LENGTH" "length ?ep = TIMESTAMP_LENGTH"
    using a window(2) by (simp_all add: timePrefix_length)
  have order: "Buffer_compare ?sp ?ep \<noteq> 1"
    using timePrefix_compare [OF a window(2)] window(1) by simp
  have info: "getPrefixInfo ?R toFarcasterTime startAt stopAt queried
      = (Inr \<lparr>startTimePrefix = ?sp, stopTimePrefix = ?ep, commonPrefixMetadata = ?node\<rparr>,
         queried @ [?cp])"
    using start stop retriever_existing [OF root]
    by (simp add: getPrefixInfo_def getTimePrefix_def)
  from traverseRange_from_common_prefix [OF syncEngineOf_keys [OF stamps] lens order _ root fuel,
      where node = ?node and s = 0 and queried = "queried @ [?cp]"
        and f = "\<lambda>node numMessages'. numMessages' + numMessages node"]
  obtain ps qs where
    run: "traverseRange fuel ?R ?node ?sp ?ep (\<lambda>node numMessages'. numMessages' + numMessages node)
            0 (queried @ [?cp])
          = Some (Inr (), fold (\<lambda>node numMessages'. numMessages' + numMessages node)
                    (map (childNode ?ks) ps) 0, (queried @ [?cp]) @ ?cp # qs)"
    and cov: "\<forall>k\<in>set ?ks. coveredBy ps k = (if inWindow ?sp ?ep k then 1 else 0)"
    and qs: "\<forall>q\<in>set qs. strict_prefix ?cp q" "distinct qs"
    by auto
  have count: "fold (\<lambda>node numMessages'. numMessages' + numMessages node) (map (childNode ?ks) ps) 0
      = length (filter (\<lambda>(t, r). a \<le> t \<and> t < b) msgs)"
    using covered_count [OF cov] filter_window_syncEngineOf [OF stamps a window(2)]
    by (simp add: fold_numMessages)
  have "getNumMessagesInSpanOptimized fuel ?R toFarcasterTime startAt stopAt queried
      = Some (Inr (length (filter (\<lambda>(t, r). a \<le> t \<and> t < b) msgs)), queried @ ?cp # ?cp # qs)"
    using info run count by (simp add: getNumMessagesInSpanOptimized_def)
  moreover have "distinct (?cp # qs)" using qs by auto
  ultimately show ?thesis by blast
qed

section \<open>Time prefixes: the order\<close>

text \<open>
  C8. The time-prefix encoding preserves order: for protocol timestamps that fit the
  fixed width, the prefix of one sorts before the prefix of the other, byte by byte, exactly
  when the one timestamp is earlier than the other.
\<close>

theorem getTimePrefix_order_preserving:
  assumes "toFarcasterTime t1 = Inr f1" and "toFarcasterTime t2 = Inr f2"
    and "f1 < 10 ^ TIMESTAMP_LENGTH" and "f2 < 10 ^ TIMESTAMP_LENGTH"
  shows "\<exists>p1 p2. getTimePrefix toFarcasterTime t1 = Inr p1
           \<and> getTimePrefix toFarcasterTime t2 = Inr p2
           \<and> (Buffer_compare p1 p2 = -1 \<longleftrightarrow> f1 < f2)
           \<and> (Buffer_compare p1 p2 = 0 \<longleftrightarrow> f1 = f2)"
  using assms timePrefix_compare [OF assms(3,4)]
  by (auto simp: getTimePrefix_def)

theorem getTimePrefix_order_preserving_witness:
  "exampleFarcasterTime (Finite 99) = Inr 99 \<and> exampleFarcasterTime (Finite 100) = Inr 100
   \<and> (99 :: nat) < 10 ^ TIMESTAMP_LENGTH \<and> (100 :: nat) < 10 ^ TIMESTAMP_LENGTH
   \<and> (\<exists>p1 p2. getTimePrefix exampleFarcasterTime (Finite 99) = Inr p1
           \<and> getTimePrefix exampleFarcasterTime (Finite 100) = Inr p2
           \<and> Buffer_compare p1 p2 = -1)"
proof -
  have a: "exampleFarcasterTime (Finite 99) = Inr 99"
    and b: "exampleFarcasterTime (Finite 100) = Inr 100"
    by code_simp+
  have c: "(99 :: nat) < 10 ^ TIMESTAMP_LENGTH" and d: "(100 :: nat) < 10 ^ TIMESTAMP_LENGTH"
    by (simp_all add: TIMESTAMP_LENGTH_def)
  from getTimePrefix_order_preserving [OF a b c d] a b c d show ?thesis by auto
qed

section \<open>The span counter on a trie\<close>

lemma collector_on_trie:
  assumes stamps: "\<forall>(t, r)\<in>set msgs. t < 10 ^ TIMESTAMP_LENGTH"
    and window: "a \<le> b" "b < 10 ^ TIMESTAMP_LENGTH"
    and root: "prefix node = getCommonPrefix (timestampToPaddedTimestampPrefix a)
                    (timestampToPaddedTimestampPrefix b)"
      "0 < numMessagesUnder (syncEngineOf msgs)
                 (getCommonPrefix (timestampToPaddedTimestampPrefix a)
                    (timestampToPaddedTimestampPrefix b))"
    and fuel: "TIMESTAMP_LENGTH < fuel"
  shows "\<exists>visited queried'.
      traverseRange fuel (SyncEngineMetadataRetriever (syncEngineOf msgs)) node
        (timestampToPaddedTimestampPrefix a) (timestampToPaddedTimestampPrefix b)
        (\<lambda>node collected. collected @ [prefix node]) [] queried
        = Some (Inr (), visited, queried')
      \<and> (\<forall>(t, r)\<in>set msgs. coveredBy visited (syncIdBytes t r)
            = (if a \<le> t \<and> t < b then 1 else 0))"
proof -
  let ?ks = "syncEngineOf msgs"
  let ?sp = "timestampToPaddedTimestampPrefix a"
  let ?ep = "timestampToPaddedTimestampPrefix b"
  have a: "a < 10 ^ TIMESTAMP_LENGTH" using window by simp
  have lens: "length ?sp = TIMESTAMP_LENGTH" "length ?ep = TIMESTAMP_LENGTH"
    using a window(2) by (simp_all add: timePrefix_length)
  have order: "Buffer_compare ?sp ?ep \<noteq> 1"
    using timePrefix_compare [OF a window(2)] window(1) by simp
  from traverseRange_from_common_prefix [OF syncEngineOf_keys [OF stamps] lens order root fuel,
      where s = "[]" and queried = queried and f = "\<lambda>node collected. collected @ [prefix node]"]
  obtain ps qs where
    run: "traverseRange fuel (SyncEngineMetadataRetriever ?ks) node ?sp ?ep
            (\<lambda>node collected. collected @ [prefix node]) [] queried
          = Some (Inr (), fold (\<lambda>node collected. collected @ [prefix node])
                    (map (childNode ?ks) ps) [],
                  queried @ getCommonPrefix ?sp ?ep # qs)"
    and cov: "\<forall>k\<in>set ?ks. coveredBy ps k = (if inWindow ?sp ?ep k then 1 else 0)"
    by auto
  have "\<forall>(t, r)\<in>set msgs. coveredBy ps (syncIdBytes t r) = (if a \<le> t \<and> t < b then 1 else 0)"
  proof (clarify)
    fix t r assume m: "(t, r) \<in> set msgs"
    then have "syncIdBytes t r \<in> set ?ks" by (force simp: syncEngineOf_def)
    moreover have "t < 10 ^ TIMESTAMP_LENGTH" using stamps m by auto
    ultimately show "coveredBy ps (syncIdBytes t r) = (if a \<le> t \<and> t < b then 1 else 0)"
      using cov inWindow_syncIdBytes [OF _ a window(2), of t r] by simp
  qed
  then show ?thesis using run by (simp add: fold_collect)
qed

text \<open>
  C1 (amended). On a trie that has a node at the common prefix of the two boundary prefixes,
  and for a window whose start is not after its stop, the optimized span counter returns,
  given fuel beyond the width of a time prefix, the number of the messages whose timestamps
  lie in the window; and the traversal visits nodes such that every message in the window
  lies under exactly one visited node and every other message under none.
\<close>

theorem getNumMessagesInSpanOptimized_counts_window:
  assumes stamps: "\<forall>(t, r)\<in>set msgs. t < 10 ^ TIMESTAMP_LENGTH"
    and start: "toFarcasterTime startAt = Inr a" and stop: "toFarcasterTime stopAt = Inr b"
    and window: "a \<le> b" "b < 10 ^ TIMESTAMP_LENGTH"
    and root: "getTrieNodeMetadata (syncEngineOf msgs)
                 (getCommonPrefix (timestampToPaddedTimestampPrefix a)
                    (timestampToPaddedTimestampPrefix b)) = Some node"
    and fuel: "TIMESTAMP_LENGTH < fuel"
  shows "(\<exists>queried'. getNumMessagesInSpanOptimized fuel
              (SyncEngineMetadataRetriever (syncEngineOf msgs))
              toFarcasterTime startAt stopAt queried
            = Some (Inr (numMessagesInWindow a b msgs), queried'))
     \<and> (\<exists>visited queried'.
          traverseRange fuel (SyncEngineMetadataRetriever (syncEngineOf msgs)) node
            (timestampToPaddedTimestampPrefix a) (timestampToPaddedTimestampPrefix b)
            (\<lambda>node collected. collected @ [prefix node]) [] queried
            = Some (Inr (), visited, queried')
          \<and> (\<forall>(t, r)\<in>set msgs. coveredBy visited (syncIdBytes t r)
                = (if a \<le> t \<and> t < b then 1 else 0)))"
proof -
  have pos: "0 < numMessagesUnder (syncEngineOf msgs)
                 (getCommonPrefix (timestampToPaddedTimestampPrefix a)
                    (timestampToPaddedTimestampPrefix b))"
    and pre: "prefix node = getCommonPrefix (timestampToPaddedTimestampPrefix a)
                    (timestampToPaddedTimestampPrefix b)"
    using root by (auto simp: getTrieNodeMetadata_def split: if_splits)
  from span_counter_on_trie [OF stamps start stop window pos fuel, of queried]
    collector_on_trie [OF stamps window pre pos fuel, of queried]
  show ?thesis unfolding numMessagesInWindow_def by blast
qed

theorem getNumMessagesInSpanOptimized_counts_window_witness:
  "exampleFarcasterTime (Finite 123) = Inr 123 \<and> exampleFarcasterTime (Finite 456) = Inr 456
   \<and> (123 :: nat) \<le> 456 \<and> (456 :: nat) < 10 ^ TIMESTAMP_LENGTH
   \<and> getTrieNodeMetadata (syncEngineOf [(123, [1, 2]), (150, [3]), (200, [3]), (456, [9])])
        (getCommonPrefix (timestampToPaddedTimestampPrefix 123)
           (timestampToPaddedTimestampPrefix 456))
      = Some (TrieNodeMetadataResponse [48, 48, 48, 48, 48, 48, 48] 4
          [TrieNodeMetadataResponse [48, 48, 48, 48, 48, 48, 48, 49] 2 [],
           TrieNodeMetadataResponse [48, 48, 48, 48, 48, 48, 48, 50] 1 [],
           TrieNodeMetadataResponse [48, 48, 48, 48, 48, 48, 48, 52] 1 []])
   \<and> TIMESTAMP_LENGTH < 11
   \<and> (\<exists>queried'. getNumMessagesInSpanOptimized 11
          (SyncEngineMetadataRetriever
             (syncEngineOf [(123, [1, 2]), (150, [3]), (200, [3]), (456, [9])]))
          exampleFarcasterTime (Finite 123) (Finite 456) [] = Some (Inr 3, queried'))"
proof -
  let ?msgs = "[(123, [1, 2]), (150, [3]), (200, [3]), (456, [9])] :: (nat \<times> Buffer) list"
  have h1: "\<forall>(t, r)\<in>set ?msgs. t < 10 ^ TIMESTAMP_LENGTH"
    by (simp add: TIMESTAMP_LENGTH_def)
  have h2: "exampleFarcasterTime (Finite 123) = Inr 123"
    and h3: "exampleFarcasterTime (Finite 456) = Inr 456"
    by code_simp+
  have h4: "(123 :: nat) \<le> 456" and h5: "(456 :: nat) < 10 ^ TIMESTAMP_LENGTH"
    by (simp_all add: TIMESTAMP_LENGTH_def)
  have h6: "getTrieNodeMetadata (syncEngineOf ?msgs)
        (getCommonPrefix (timestampToPaddedTimestampPrefix 123)
           (timestampToPaddedTimestampPrefix 456))
      = Some (TrieNodeMetadataResponse [48, 48, 48, 48, 48, 48, 48] 4
          [TrieNodeMetadataResponse [48, 48, 48, 48, 48, 48, 48, 49] 2 [],
           TrieNodeMetadataResponse [48, 48, 48, 48, 48, 48, 48, 50] 1 [],
           TrieNodeMetadataResponse [48, 48, 48, 48, 48, 48, 48, 52] 1 []])"
    by code_simp
  have h7: "TIMESTAMP_LENGTH < 11" by (simp add: TIMESTAMP_LENGTH_def)
  have n: "numMessagesInWindow 123 456 ?msgs = 3" by (simp add: numMessagesInWindow_def)
  from getNumMessagesInSpanOptimized_counts_window [OF h1 h2 h3 h4 h5 h6 h7, of "[]"]
  have r: "\<exists>queried'. getNumMessagesInSpanOptimized 11
          (SyncEngineMetadataRetriever (syncEngineOf ?msgs))
          exampleFarcasterTime (Finite 123) (Finite 456) [] = Some (Inr 3, queried')"
    unfolding n by blast
  show ?thesis by (intro conjI h2 h3 h4 h5 h6 h7 r)
qed

text \<open>
  The claim as stated fails on two inputs. With one message at timestamp 5 and the window
  from 120 to 125, no node exists at the common prefix of the boundaries: the counter fails
  with \<^verbatim>\<open>unavailable\<close>, where the true number is 0. With messages at 5 and 3 and the
  window from 5 to 3, which holds no timestamp, the counter returns 1.
\<close>

theorem getNumMessagesInSpanOptimized_counterexample:
  "getNumMessagesInSpanOptimized 11 (SyncEngineMetadataRetriever (syncEngineOf [(5, [1])]))
     exampleFarcasterTime (Finite 120) (Finite 125) []
     = Some (Inl (HubError ''unavailable'' ''Missing metadata for node''),
             [[48, 48, 48, 48, 48, 48, 48, 49, 50]])
   \<and> numMessagesInWindow 120 125 [(5, [1])] = 0
   \<and> getNumMessagesInSpanOptimized 11
       (SyncEngineMetadataRetriever (syncEngineOf [(5, [1]), (3, [1])]))
       exampleFarcasterTime (Finite 5) (Finite 3) []
     = Some (Inr 1, [[48, 48, 48, 48, 48, 48, 48, 48, 48], [48, 48, 48, 48, 48, 48, 48, 48, 48],
                     [48, 48, 48, 48, 48, 48, 48, 48, 48, 51]])
   \<and> numMessagesInWindow 5 3 [(5, [1]), (3, [1])] = 0"
  by (intro conjI; code_simp)

section \<open>The queries of a run\<close>

text \<open>
  The log of the prefixes queried, for any trie and any two boundary prefixes: below a node
  on the path to a boundary, every prefix is queried at most once.
\<close>

lemma traverseChildren_queries:
  fixes f :: "TrieNodeMetadataResponse \<Rightarrow> 's \<Rightarrow> 's"
  assumes rec: "\<And>c s queried.
        Sublist.prefix c sp \<or> Sublist.prefix c ep \<Longrightarrow> 0 < numMessagesUnder ks c \<Longrightarrow>
        length c = Suc (length p) \<Longrightarrow>
        \<exists>s' qs. traverseRange n (SyncEngineMetadataRetriever ks) (childNode ks c) sp ep f s queried
                   = Some (Inr (), s', queried @ c # qs)
          \<and> (\<forall>q\<in>set qs. strict_prefix c q) \<and> distinct qs"
    and xs: "distinct xs" "\<forall>x\<in>set xs. 0 < numMessagesUnder ks (p @ [x])"
  shows "\<exists>s' qs. traverseChildren n (SyncEngineMetadataRetriever ks)
                    (map (\<lambda>b. childNode ks (p @ [b])) xs) sp ep f s queried
                   = Some (s', queried @ qs)
          \<and> (\<forall>q\<in>set qs. \<exists>x\<in>set xs. Sublist.prefix (p @ [x]) q) \<and> distinct qs"
  using xs
proof (induction xs arbitrary: s queried)
  case Nil
  show ?case by simp
next
  case (Cons x xs)
  let ?R = "SyncEngineMetadataRetriever ks"
  let ?c = "p @ [x]"
  let ?rest = "map (\<lambda>b. childNode ks (p @ [b])) xs"
  have dxs: "distinct xs" and pos: "\<forall>x\<in>set xs. 0 < numMessagesUnder ks (p @ [x])"
    and xnew: "x \<notin> set xs" and cpos: "0 < numMessagesUnder ks ?c"
    using Cons.prems by auto
  note IH = Cons.IH [OF dxs pos]
  have other: "\<not> Sublist.prefix (p @ [y]) k" if "Sublist.prefix ?c k" "y \<in> set xs" for y k
    using that xnew prefix_snoc_unique [of p x k y] by auto
  show ?case
  proof (cases "Buffer_compare ?c sp \<noteq> 0 \<and> (isPrefix sp ?c \<or> isPrefix ep ?c)")
    case True
    then have pre: "Sublist.prefix ?c sp \<or> Sublist.prefix ?c ep" by (simp add: isPrefix_def)
    from rec [OF pre cpos, of s queried] obtain s1 qs1 where
      run1: "traverseRange n ?R (childNode ks ?c) sp ep f s queried
               = Some (Inr (), s1, queried @ ?c # qs1)"
      and qs1: "\<forall>q\<in>set qs1. strict_prefix ?c q" "distinct qs1"
      by auto
    from IH [of s1 "queried @ ?c # qs1"] obtain s2 qs2 where
      run2: "traverseChildren n ?R ?rest sp ep f s1 (queried @ ?c # qs1)
              = Some (s2, (queried @ ?c # qs1) @ qs2)"
      and qs2: "\<forall>q\<in>set qs2. \<exists>x\<in>set xs. Sublist.prefix (p @ [x]) q" "distinct qs2"
      by blast
    have "traverseChildren n ?R (map (\<lambda>b. childNode ks (p @ [b])) (x # xs)) sp ep f s queried
            = Some (s2, queried @ (?c # qs1 @ qs2))"
      using True run1 run2 by simp
    moreover have "\<forall>q\<in>set (?c # qs1 @ qs2). \<exists>y\<in>set (x # xs). Sublist.prefix (p @ [y]) q"
      using qs1(1) qs2(1) by (auto simp: strict_prefix_def)
    moreover have "distinct (?c # qs1 @ qs2)"
    proof -
      have "?c \<notin> set qs1" using qs1(1) by auto
      moreover have "q \<notin> set qs2" if "Sublist.prefix ?c q" for q
        using qs2(1) other [OF that] by auto
      ultimately show ?thesis using qs1 qs2(2) by (auto simp: strict_prefix_def)
    qed
    ultimately show ?thesis by blast
  next
    case False
    have "\<exists>s1. traverseChildren n ?R (map (\<lambda>b. childNode ks (p @ [b])) (x # xs))
          sp ep f s queried = traverseChildren n ?R ?rest sp ep f s1 queried"
    proof (cases "Buffer_compare ?c sp = 0
        \<or> (Buffer_compare ?c sp = 1 \<and> Buffer_compare ?c ep = -1)")
      case True
      then have "traverseChildren n ?R (map (\<lambda>b. childNode ks (p @ [b])) (x # xs))
          sp ep f s queried = traverseChildren n ?R ?rest sp ep f (f (childNode ks ?c) s) queried"
        using False by auto
      then show ?thesis by blast
    next
      case unvisited: False
      then have "traverseChildren n ?R (map (\<lambda>b. childNode ks (p @ [b])) (x # xs))
          sp ep f s queried = traverseChildren n ?R ?rest sp ep f s queried"
        using False by auto
      then show ?thesis by blast
    qed
    then obtain s1 where step: "traverseChildren n ?R (map (\<lambda>b. childNode ks (p @ [b])) (x # xs))
          sp ep f s queried = traverseChildren n ?R ?rest sp ep f s1 queried" ..
    from IH [of s1 queried] obtain s2 qs where
      run: "traverseChildren n ?R ?rest sp ep f s1 queried = Some (s2, queried @ qs)"
      and qs: "\<forall>q\<in>set qs. \<exists>x\<in>set xs. Sublist.prefix (p @ [x]) q" "distinct qs"
      by blast
    have "\<forall>q\<in>set qs. \<exists>y\<in>set (x # xs). Sublist.prefix (p @ [y]) q" using qs(1) by auto
    with step run qs(2) show ?thesis by auto
  qed
qed

lemma traverseRange_queries:
  fixes f :: "TrieNodeMetadataResponse \<Rightarrow> 's \<Rightarrow> 's"
  shows "prefix node = p \<Longrightarrow> Sublist.prefix p sp \<or> Sublist.prefix p ep \<Longrightarrow>
     0 < numMessagesUnder ks p \<Longrightarrow> length sp < n + length p \<Longrightarrow> length ep < n + length p \<Longrightarrow>
     \<exists>s' qs. traverseRange n (SyncEngineMetadataRetriever ks) node sp ep f s queried
                = Some (Inr (), s', queried @ p # qs)
       \<and> (\<forall>q\<in>set qs. strict_prefix p q) \<and> distinct qs"
proof (induction n arbitrary: node p s queried)
  case 0
  then show ?case by (auto dest: prefix_length_le)
next
  case (Suc n)
  let ?R = "SyncEngineMetadataRetriever ks"
  let ?kids = "map (\<lambda>b. childNode ks (p @ [b])) (nextBytes ks p)"
  have get: "?R (prefix node) queried
      = (Inr (TrieNodeMetadataResponse p (numMessagesUnder ks p) ?kids), queried @ [p])"
    using Suc.prems(1,3) retriever_existing by simp
  have pos: "\<forall>x\<in>set (nextBytes ks p). 0 < numMessagesUnder ks (p @ [x])"
    by (simp add: nextBytes_iff numMessagesUnder_pos)
  have rec: "\<exists>s' qs. traverseRange n ?R (childNode ks c) sp ep f s1 queried1
                   = Some (Inr (), s', queried1 @ c # qs)
          \<and> (\<forall>q\<in>set qs. strict_prefix c q) \<and> distinct qs"
    if "Sublist.prefix c sp \<or> Sublist.prefix c ep" "0 < numMessagesUnder ks c"
      "length c = Suc (length p)" for c s1 queried1
    using Suc.IH [of "childNode ks c" c s1 queried1] that Suc.prems(4,5) by simp
  from traverseChildren_queries [OF rec nextBytes_distinct pos,
      where s = s and queried = "queried @ [p]"]
  obtain s' qs where
    run: "traverseChildren n ?R ?kids sp ep f s (queried @ [p]) = Some (s', (queried @ [p]) @ qs)"
    and qs: "\<forall>q\<in>set qs. \<exists>x\<in>set (nextBytes ks p). Sublist.prefix (p @ [x]) q" "distinct qs"
    by blast
  have "traverseRange (Suc n) ?R node sp ep f s queried = Some (Inr (), s', queried @ p # qs)"
    using get run by simp
  moreover have "\<forall>q\<in>set qs. strict_prefix p q"
    using qs(1) by (auto simp: strict_prefix_def prefix_snoc_iff)
  ultimately show ?case using qs(2) by blast
qed

lemma span_counter_queries:
  assumes start: "toFarcasterTime startAt = Inr a" and stop: "toFarcasterTime stopAt = Inr b"
    and fuel: "length (timestampToPaddedTimestampPrefix a) < fuel"
      "length (timestampToPaddedTimestampPrefix b) < fuel"
    and root: "0 < numMessagesUnder ks (getCommonPrefix (timestampToPaddedTimestampPrefix a)
                    (timestampToPaddedTimestampPrefix b))"
  shows "\<exists>result qs. getNumMessagesInSpanOptimized fuel (SyncEngineMetadataRetriever ks)
            toFarcasterTime startAt stopAt queried
          = Some (result,
              queried @ getCommonPrefix (timestampToPaddedTimestampPrefix a)
                          (timestampToPaddedTimestampPrefix b)
                # getCommonPrefix (timestampToPaddedTimestampPrefix a)
                          (timestampToPaddedTimestampPrefix b) # qs)
        \<and> distinct (getCommonPrefix (timestampToPaddedTimestampPrefix a)
                          (timestampToPaddedTimestampPrefix b) # qs)"
proof -
  let ?sp = "timestampToPaddedTimestampPrefix a"
  let ?ep = "timestampToPaddedTimestampPrefix b"
  let ?cp = "getCommonPrefix ?sp ?ep"
  let ?R = "SyncEngineMetadataRetriever ks"
  let ?node = "TrieNodeMetadataResponse ?cp (numMessagesUnder ks ?cp)
                 (map (\<lambda>b. childNode ks (?cp @ [b])) (nextBytes ks ?cp))"
  have info: "getPrefixInfo ?R toFarcasterTime startAt stopAt queried
      = (Inr \<lparr>startTimePrefix = ?sp, stopTimePrefix = ?ep, commonPrefixMetadata = ?node\<rparr>,
         queried @ [?cp])"
    using start stop retriever_existing [OF root]
    by (simp add: getPrefixInfo_def getTimePrefix_def)
  have pre: "Sublist.prefix ?cp ?sp \<or> Sublist.prefix ?cp ?ep"
    by (simp add: getCommonPrefix_prefix1)
  have f1: "length ?sp < fuel + length ?cp" and f2: "length ?ep < fuel + length ?cp"
    using fuel by simp_all
  from traverseRange_queries [OF _ pre root f1 f2,
      where node = ?node and s = 0 and queried = "queried @ [?cp]"
        and f = "\<lambda>node numMessages'. numMessages' + numMessages node"]
  obtain s' qs where
    run: "traverseRange fuel ?R ?node ?sp ?ep (\<lambda>node numMessages'. numMessages' + numMessages node)
            0 (queried @ [?cp]) = Some (Inr (), s', (queried @ [?cp]) @ ?cp # qs)"
    and qs: "\<forall>q\<in>set qs. strict_prefix ?cp q" "distinct qs"
    by auto
  have "getNumMessagesInSpanOptimized fuel ?R toFarcasterTime startAt stopAt queried
      = Some (Inr s', queried @ ?cp # ?cp # qs)"
    using info run by (simp add: getNumMessagesInSpanOptimized_def)
  moreover have "distinct (?cp # qs)" using qs by auto
  ultimately show ?thesis by blast
qed

lemma span_counter_missing_root:
  assumes start: "toFarcasterTime startAt = Inr a" and stop: "toFarcasterTime stopAt = Inr b"
    and root: "numMessagesUnder ks (getCommonPrefix (timestampToPaddedTimestampPrefix a)
                    (timestampToPaddedTimestampPrefix b)) = 0"
  shows "getNumMessagesInSpanOptimized fuel (SyncEngineMetadataRetriever ks)
            toFarcasterTime startAt stopAt queried
          = Some (Inl (HubError ''unavailable'' ''Missing metadata for node''),
              queried @ [getCommonPrefix (timestampToPaddedTimestampPrefix a)
                          (timestampToPaddedTimestampPrefix b)])"
  using start stop retriever_missing [OF root]
  by (simp add: getNumMessagesInSpanOptimized_def getPrefixInfo_def getTimePrefix_def)

text \<open>
  C7 (amended). A run of the optimized span counter, on any trie and for any two boundary
  times, in either order. When a boundary time has no protocol timestamp, the run fails before
  any query. When no node exists at the common prefix of the boundary prefixes, the run
  fails after one query, that of the common prefix. Otherwise \<^verbatim>\<open>getMetadata\<close> is invoked
  twice on the common prefix, once by \<^verbatim>\<open>getPrefixInfo\<close> and once at the root of
  \<^verbatim>\<open>traverseRange\<close>, and at most once on every other prefix; the run returns within any
  fuel above the lengths of the boundary prefixes.
\<close>

theorem getMetadata_queries_of_a_run:
  "(toFarcasterTime startAt = Inl e \<longrightarrow>
      getNumMessagesInSpanOptimized fuel (SyncEngineMetadataRetriever syncEngine)
          toFarcasterTime startAt stopAt [] = Some (Inl e, []))
   \<and> (toFarcasterTime startAt = Inr a \<and> toFarcasterTime stopAt = Inl e \<longrightarrow>
      getNumMessagesInSpanOptimized fuel (SyncEngineMetadataRetriever syncEngine)
          toFarcasterTime startAt stopAt [] = Some (Inl e, []))
   \<and> (toFarcasterTime startAt = Inr a \<and> toFarcasterTime stopAt = Inr b
        \<and> getTrieNodeMetadata syncEngine
             (getCommonPrefix (timestampToPaddedTimestampPrefix a)
                (timestampToPaddedTimestampPrefix b)) = None \<longrightarrow>
      getNumMessagesInSpanOptimized fuel (SyncEngineMetadataRetriever syncEngine)
          toFarcasterTime startAt stopAt []
        = Some (Inl (HubError ''unavailable'' ''Missing metadata for node''),
            [getCommonPrefix (timestampToPaddedTimestampPrefix a)
               (timestampToPaddedTimestampPrefix b)]))
   \<and> (toFarcasterTime startAt = Inr a \<and> toFarcasterTime stopAt = Inr b
        \<and> getTrieNodeMetadata syncEngine
             (getCommonPrefix (timestampToPaddedTimestampPrefix a)
                (timestampToPaddedTimestampPrefix b)) = Some node
        \<and> length (timestampToPaddedTimestampPrefix a) < fuel
        \<and> length (timestampToPaddedTimestampPrefix b) < fuel \<longrightarrow>
      (\<exists>result others.
         getNumMessagesInSpanOptimized fuel (SyncEngineMetadataRetriever syncEngine)
             toFarcasterTime startAt stopAt []
           = Some (result, getCommonPrefix (timestampToPaddedTimestampPrefix a)
                       (timestampToPaddedTimestampPrefix b)
                    # getCommonPrefix (timestampToPaddedTimestampPrefix a)
                       (timestampToPaddedTimestampPrefix b) # others)
         \<and> distinct (getCommonPrefix (timestampToPaddedTimestampPrefix a)
                       (timestampToPaddedTimestampPrefix b) # others)))"
proof (intro conjI impI)
  let ?cp = "getCommonPrefix (timestampToPaddedTimestampPrefix a)
               (timestampToPaddedTimestampPrefix b)"
  let ?run = "getNumMessagesInSpanOptimized fuel (SyncEngineMetadataRetriever syncEngine)
                toFarcasterTime startAt stopAt []"
  show "?run = Some (Inl e, [])" if "toFarcasterTime startAt = Inl e"
    using that
    by (simp add: getNumMessagesInSpanOptimized_def getPrefixInfo_def getTimePrefix_def)
  show "?run = Some (Inl e, [])"
    if "toFarcasterTime startAt = Inr a \<and> toFarcasterTime stopAt = Inl e"
    using that
    by (simp add: getNumMessagesInSpanOptimized_def getPrefixInfo_def getTimePrefix_def)
  show "?run = Some (Inl (HubError ''unavailable'' ''Missing metadata for node''), [?cp])"
    if h: "toFarcasterTime startAt = Inr a \<and> toFarcasterTime stopAt = Inr b
        \<and> getTrieNodeMetadata syncEngine ?cp = None"
  proof -
    have "numMessagesUnder syncEngine ?cp = 0"
      using h by (auto simp: getTrieNodeMetadata_def split: if_splits)
    from span_counter_missing_root [OF _ _ this, of toFarcasterTime startAt stopAt fuel "[]"] h
    show ?thesis by simp
  qed
  show "\<exists>result others. ?run = Some (result, ?cp # ?cp # others) \<and> distinct (?cp # others)"
    if h: "toFarcasterTime startAt = Inr a \<and> toFarcasterTime stopAt = Inr b
        \<and> getTrieNodeMetadata syncEngine ?cp = Some node
        \<and> length (timestampToPaddedTimestampPrefix a) < fuel
        \<and> length (timestampToPaddedTimestampPrefix b) < fuel"
  proof -
    have "0 < numMessagesUnder syncEngine ?cp"
      using h by (auto simp: getTrieNodeMetadata_def split: if_splits)
    from span_counter_queries [OF _ _ _ _ this, of toFarcasterTime startAt stopAt fuel "[]"] h
    show ?thesis by simp
  qed
qed

theorem getMetadata_queries_of_a_run_witness:
  "getNumMessagesInSpanOptimized 11
       (SyncEngineMetadataRetriever
          (syncEngineOf [(123, [1, 2]), (150, [3]), (200, [3]), (456, [9])]))
       exampleFarcasterTime NaN (Finite 123) []
     = Some (Inl (HubError ''bad_request.invalid_param'' ''time is not finite''), [])
   \<and> getNumMessagesInSpanOptimized 11
       (SyncEngineMetadataRetriever
          (syncEngineOf [(123, [1, 2]), (150, [3]), (200, [3]), (456, [9])]))
       exampleFarcasterTime (Finite 456) NaN []
     = Some (Inl (HubError ''bad_request.invalid_param'' ''time is not finite''), [])
   \<and> getNumMessagesInSpanOptimized 11 (SyncEngineMetadataRetriever (syncEngineOf [(5, [1])]))
       exampleFarcasterTime (Finite 120) (Finite 125) []
     = Some (Inl (HubError ''unavailable'' ''Missing metadata for node''),
         [getCommonPrefix (timestampToPaddedTimestampPrefix 120)
            (timestampToPaddedTimestampPrefix 125)])
   \<and> getTrieNodeMetadata (syncEngineOf [(123, [1, 2]), (150, [3]), (200, [3]), (456, [9])])
        (getCommonPrefix (timestampToPaddedTimestampPrefix 456)
           (timestampToPaddedTimestampPrefix 123))
      = Some (TrieNodeMetadataResponse [48, 48, 48, 48, 48, 48, 48] 4
          [TrieNodeMetadataResponse [48, 48, 48, 48, 48, 48, 48, 49] 2 [],
           TrieNodeMetadataResponse [48, 48, 48, 48, 48, 48, 48, 50] 1 [],
           TrieNodeMetadataResponse [48, 48, 48, 48, 48, 48, 48, 52] 1 []])
   \<and> (\<exists>result others. getNumMessagesInSpanOptimized 11
          (SyncEngineMetadataRetriever
             (syncEngineOf [(123, [1, 2]), (150, [3]), (200, [3]), (456, [9])]))
          exampleFarcasterTime (Finite 456) (Finite 123) []
          = Some (result, getCommonPrefix (timestampToPaddedTimestampPrefix 456)
                    (timestampToPaddedTimestampPrefix 123)
                 # getCommonPrefix (timestampToPaddedTimestampPrefix 456)
                    (timestampToPaddedTimestampPrefix 123) # others)
        \<and> distinct (getCommonPrefix (timestampToPaddedTimestampPrefix 456)
                    (timestampToPaddedTimestampPrefix 123) # others))"
proof -
  let ?msgs = "[(123, [1, 2]), (150, [3]), (200, [3]), (456, [9])] :: (nat \<times> Buffer) list"
  let ?e = "HubError ''bad_request.invalid_param'' ''time is not finite''"
  let ?root = "TrieNodeMetadataResponse [48, 48, 48, 48, 48, 48, 48] 4
          [TrieNodeMetadataResponse [48, 48, 48, 48, 48, 48, 48, 49] 2 [],
           TrieNodeMetadataResponse [48, 48, 48, 48, 48, 48, 48, 50] 1 [],
           TrieNodeMetadataResponse [48, 48, 48, 48, 48, 48, 48, 52] 1 []]"
  have n: "exampleFarcasterTime NaN = Inl ?e" by code_simp
  have t456: "exampleFarcasterTime (Finite 456) = Inr 456"
    and t123: "exampleFarcasterTime (Finite 123) = Inr 123"
    and t120: "exampleFarcasterTime (Finite 120) = Inr 120"
    and t125: "exampleFarcasterTime (Finite 125) = Inr 125"
    by code_simp+
  have absent: "getTrieNodeMetadata (syncEngineOf [(5, [1])])
        (getCommonPrefix (timestampToPaddedTimestampPrefix 120)
           (timestampToPaddedTimestampPrefix 125)) = None"
    by code_simp
  have present: "getTrieNodeMetadata (syncEngineOf ?msgs)
        (getCommonPrefix (timestampToPaddedTimestampPrefix 456)
           (timestampToPaddedTimestampPrefix 123)) = Some ?root"
    by code_simp
  have l456: "length (timestampToPaddedTimestampPrefix 456) < 11"
    and l123: "length (timestampToPaddedTimestampPrefix 123) < 11"
    by code_simp+
  note r1 = getMetadata_queries_of_a_run [where toFarcasterTime = exampleFarcasterTime
      and startAt = NaN and stopAt = "Finite 123" and e = ?e and fuel = 11
      and syncEngine = "syncEngineOf ?msgs", THEN conjunct1, THEN mp, OF n]
  note r2 = getMetadata_queries_of_a_run [where toFarcasterTime = exampleFarcasterTime
      and startAt = "Finite 456" and stopAt = NaN and e = ?e and a = 456 and fuel = 11
      and syncEngine = "syncEngineOf ?msgs",
      THEN conjunct2, THEN conjunct1, THEN mp, OF conjI [OF t456 n]]
  note r3 = getMetadata_queries_of_a_run [where toFarcasterTime = exampleFarcasterTime
      and startAt = "Finite 120" and stopAt = "Finite 125" and a = 120 and b = 125
      and fuel = 11 and syncEngine = "syncEngineOf [(5, [1])]",
      THEN conjunct2, THEN conjunct2, THEN conjunct1, THEN mp,
      OF conjI [OF t120 conjI [OF t125 absent]]]
  note r4 = getMetadata_queries_of_a_run [where toFarcasterTime = exampleFarcasterTime
      and startAt = "Finite 456" and stopAt = "Finite 123" and a = 456 and b = 123
      and fuel = 11 and syncEngine = "syncEngineOf ?msgs" and node = ?root,
      THEN conjunct2, THEN conjunct2, THEN conjunct2, THEN mp,
      OF conjI [OF t456 conjI [OF t123 conjI [OF present conjI [OF l456 l123]]]]]
  show ?thesis by (intro conjI r1 r2 r3 present r4)
qed

text \<open>
  The claim as stated fails on every run that reaches the traversal: here, for a window and
  for the same boundaries exchanged, the list of the prefixes queried holds the common
  prefix twice.
\<close>

theorem getMetadata_queries_counterexample:
  "map_option (distinct \<circ> snd)
     (getNumMessagesInSpanOptimized 11
        (SyncEngineMetadataRetriever
           (syncEngineOf [(123, [1, 2]), (150, [3]), (200, [3]), (456, [9])]))
        exampleFarcasterTime (Finite 123) (Finite 456) []) = Some False
   \<and> map_option (distinct \<circ> snd)
     (getNumMessagesInSpanOptimized 11
        (SyncEngineMetadataRetriever
           (syncEngineOf [(123, [1, 2]), (150, [3]), (200, [3]), (456, [9])]))
        exampleFarcasterTime (Finite 456) (Finite 123) []) = Some False"
  by (intro conjI; code_simp)

text \<open>
  A remark on \<open>traverseRange\<close>: the result of its recursive call is dropped, so the error
  of a metadata fetch below the root does not reach the caller. Here the fetch of one child
  misses its deadline and the counter returns ok with 1, where the window holds 3 messages.
\<close>

lemma traverseRange_child_error_dropped:
  "getNumMessagesInSpanOptimized 11
     (RpcMetadataRetriever (recordingClient ''peer''
        ((trieReplica [(123, [1]), (150, [3]), (200, [3])] [])\<lparr>metadataByPrefix :=
           (\<lambda>p. if p = [48, 48, 48, 48, 48, 48, 48, 49]
                then Inl (HubError ''unavailable'' ''deadline exceeded'')
                else metadataByPrefix (trieReplica [(123, [1]), (150, [3]), (200, [3])] []) p)\<rparr>)))
     exampleFarcasterTime (Finite 123) (Finite 456) []
   = Some (Inr 1,
       [(''peer'', GetSyncMetadataByPrefix [48, 48, 48, 48, 48, 48, 48]),
        (''peer'', GetSyncMetadataByPrefix [48, 48, 48, 48, 48, 48, 48]),
        (''peer'', GetSyncMetadataByPrefix [48, 48, 48, 48, 48, 48, 48, 49])])
   \<and> numMessagesInWindow 123 456 [(123, [1]), (150, [3]), (200, [3])] = 3"
  by (intro conjI; code_simp)

section \<open>Properties of the diff\<close>

lemma find_Buffer_compare:
  "find (\<lambda>otherSyncId. Buffer_compare syncId otherSyncId = 0) otherSyncIds = None
     \<longleftrightarrow> syncId \<notin> set otherSyncIds"
  by (simp add: find_None_iff Buffer_compare_eq_0)

lemma uniqueSyncIdsLoop_filter:
  "uniqueSyncIdsLoop mySyncIds otherSyncIds acc
     = acc @ filter (\<lambda>syncId. syncId \<notin> set otherSyncIds) mySyncIds"
proof (induction mySyncIds arbitrary: acc)
  case Nil
  show ?case by simp
next
  case (Cons syncId rest)
  show ?case
  proof (cases "find (\<lambda>otherSyncId. Buffer_compare syncId otherSyncId = 0) otherSyncIds")
    case None
    then have "syncId \<notin> set otherSyncIds" by (simp add: find_Buffer_compare)
    with None Cons show ?thesis by simp
  next
    case (Some found)
    then have "syncId \<in> set otherSyncIds"
      using find_Buffer_compare [of syncId otherSyncIds] by auto
    with Some Cons show ?thesis by simp
  qed
qed

lemma uniqueSyncIds_filter:
  "uniqueSyncIds mySyncIds otherSyncIds = filter (\<lambda>syncId. syncId \<notin> set otherSyncIds) mySyncIds"
  by (simp add: uniqueSyncIds_def uniqueSyncIdsLoop_filter)

text \<open>
  C2. The diff step computes true set differences. An identifier of both collections is in
  neither output; the identifiers of \<open>uniqueSyncIds a b\<close> are those of \<open>a\<close> that are not,
  byte for byte, in \<open>b\<close>; and identical collections give two empty outputs.
\<close>

theorem uniqueSyncIds_set_difference:
  "(syncId \<in> set primaryIds \<and> syncId \<in> set peerIds \<longrightarrow>
      syncId \<notin> set (uniqueSyncIds primaryIds peerIds) \<and> syncId \<notin> set (uniqueSyncIds peerIds primaryIds))
   \<and> set (uniqueSyncIds primaryIds peerIds) = set primaryIds - set peerIds
   \<and> set (uniqueSyncIds peerIds primaryIds) = set peerIds - set primaryIds
   \<and> uniqueSyncIds primaryIds primaryIds = []"
  by (auto simp: uniqueSyncIds_filter)

theorem uniqueSyncIds_set_difference_witness:
  "([1, 2] :: Buffer) \<in> set [[1, 2], [3]] \<and> ([1, 2] :: Buffer) \<in> set [[4], [1, 2]]
   \<and> ([1, 2] :: Buffer) \<notin> set (uniqueSyncIds [[1, 2], [3]] [[4], [1, 2]])
   \<and> ([1, 2] :: Buffer) \<notin> set (uniqueSyncIds [[4], [1, 2]] [[1, 2], [3]])
   \<and> uniqueSyncIds [[1, 2], [3]] [[4], [1, 2]] = [[3]]
   \<and> uniqueSyncIds [[4], [1, 2]] [[1, 2], [3]] = [[4]]
   \<and> uniqueSyncIds [[1, 2], [3 :: byte]] [[1, 2], [3]] = []"
proof -
  have a: "([1, 2] :: Buffer) \<in> set [[1, 2], [3]] \<and> ([1, 2] :: Buffer) \<in> set [[4], [1, 2]]"
    by simp
  have b: "uniqueSyncIds [[1, 2], [3]] [[4], [1, 2]] = [[3]]"
    and c: "uniqueSyncIds [[4], [1, 2]] [[1, 2], [3]] = [[4]]"
    by code_simp+
  from a uniqueSyncIds_set_difference [of "[1, 2]" "[[1, 2], [3]]" "[[4], [1, 2]]"]
  show ?thesis unfolding b c by blast
qed

text \<open>
  C10. The output of \<open>uniqueSyncIds\<close> is an ordered list, not a set: it keeps, in the order of
  the first argument, every occurrence that has no byte-equal element in the second argument,
  so an identifier that the first argument holds twice and the second lacks comes out twice.
\<close>

theorem uniqueSyncIds_keeps_occurrences:
  "uniqueSyncIds mySyncIds otherSyncIds
     = filter (\<lambda>syncId. syncId \<notin> set otherSyncIds) mySyncIds
   \<and> (syncId \<notin> set otherSyncIds \<longrightarrow>
        uniqueSyncIds (syncId # syncId # mySyncIds) otherSyncIds
          = syncId # syncId # uniqueSyncIds mySyncIds otherSyncIds)"
  by (simp add: uniqueSyncIds_filter)

theorem uniqueSyncIds_keeps_occurrences_witness:
  "([5] :: Buffer) \<notin> set [[8]]
   \<and> uniqueSyncIds [[5], [5], [8 :: byte]] [[8]] = [[5], [5]]"
proof -
  have a: "([5] :: Buffer) \<notin> set [[8]]" by simp
  have b: "uniqueSyncIds [[8 :: byte]] [[8]] = []" by code_simp
  from a uniqueSyncIds_keeps_occurrences [of "[[8]]" "[[8]]" "[5]"]
  show ?thesis unfolding b by blast
qed

section \<open>Health report: the percentage\<close>

text \<open>
  C3. When the primary's message count is zero the percentage is not a finite number: the
  division gives NaN or Infinity, and the serialized health record holds \<^verbatim>\<open>null\<close> in the
  field \<^verbatim>\<open>diffPercentage\<close>.
\<close>

theorem diffPercentage_of_zero_primary:
  assumes "primaryNumMessages (syncHealthMessageStats stats) = 0"
  shows "(computeDiffPercentage (syncHealthMessageStats stats) = NaN
          \<or> computeDiffPercentage (syncHealthMessageStats stats) = PosInfinity)
     \<and> (\<exists>fields. serializedSummary stats = JObject fields
           \<and> map_of fields ''diffPercentage'' = Some JNull)"
  using assms
  by (auto simp: computeDiffPercentage_def divide_number_def serializedSummary_def
      JSON_number_def)

theorem diffPercentage_of_zero_primary_witness:
  "primaryNumMessages (syncHealthMessageStats
      \<lparr>syncHealthMessageStats = \<lparr>primaryNumMessages = 0, peerNumMessages = 5\<rparr>,
       resultsUploadingToPeer = [], resultsUploadingToPrimary = [],
       primary = ''primary'', peer = ''peer'', startTime = Finite 0, stopTime = Finite 1000\<rparr>) = 0
   \<and> computeDiffPercentage \<lparr>primaryNumMessages = 0, peerNumMessages = 5\<rparr> = PosInfinity
   \<and> computeDiffPercentage \<lparr>primaryNumMessages = 0, peerNumMessages = 0\<rparr> = NaN"
proof -
  let ?stats = "\<lparr>syncHealthMessageStats = \<lparr>primaryNumMessages = 0, peerNumMessages = 5\<rparr>,
       resultsUploadingToPeer = [], resultsUploadingToPrimary = [],
       primary = ''primary'', peer = ''peer'', startTime = Finite 0, stopTime = Finite 1000\<rparr>"
  have h: "primaryNumMessages (syncHealthMessageStats ?stats) = 0" by simp
  have a: "computeDiffPercentage \<lparr>primaryNumMessages = 0, peerNumMessages = 5\<rparr> \<noteq> NaN"
    by (simp add: computeDiffPercentage_def divide_number_def computeDiff_def)
  have b: "computeDiffPercentage \<lparr>primaryNumMessages = 0, peerNumMessages = 0\<rparr> = NaN"
    by (simp add: computeDiffPercentage_def divide_number_def computeDiff_def)
  from diffPercentage_of_zero_primary [OF h] a
  have "computeDiffPercentage \<lparr>primaryNumMessages = 0, peerNumMessages = 5\<rparr> = PosInfinity"
    by simp
  with h b show ?thesis by simp
qed

section \<open>Session driver: the connection step and the time of day\<close>

text \<open>
  C4 (amended). For every peer, the connection step attempts an insecure connection first,
  and creates a secure client only when the insecure attempt raises synchronously or fails
  to become ready within the deadline.
\<close>

theorem connectPeer_insecure_first:
  "\<exists>later. fst (connectPeer env peerAddress) = GetRpcClient Insecure peerAddress # later
     \<and> (GetRpcClient Secure peerAddress \<in> set later
          \<longleftrightarrow> clientRaises env Insecure peerAddress \<or> notReady env Insecure peerAddress)"
  by (simp add: connectPeer_def)

theorem connectPeer_insecure_first_witness:
  "\<exists>later. fst (connectPeer \<lparr>localMidnight = 0, clientRaises = (\<lambda>transport address. False),
                 notReady = (\<lambda>transport address. transport = Insecure),
                 peersPicked = Inr []\<rparr> ''peer1'') = GetRpcClient Insecure ''peer1'' # later
     \<and> GetRpcClient Secure ''peer1'' \<in> set later"
  using connectPeer_insecure_first [of "\<lparr>localMidnight = 0, clientRaises = (\<lambda>transport address. False),
                 notReady = (\<lambda>transport address. transport = Insecure),
                 peersPicked = Inr []\<rparr>" "''peer1''"]
  by simp

text \<open>
  The claim as stated fails on a peer whose insecure client is created and becomes ready:
  the only connection attempted is the insecure one.
\<close>

theorem connectPeer_secure_first_counterexample:
  "connectPeer \<lparr>localMidnight = 0, clientRaises = (\<lambda>transport address. False),
       notReady = (\<lambda>transport address. False), peersPicked = Inr []\<rparr> ''peer1''
     = ([GetRpcClient Insecure ''peer1'', WaitForReady Insecure ''peer1''], False)"
  by (simp add: connectPeer_def)

text \<open>
  C9. The start time \<^verbatim>\<open>aa:bb:cc\<close> is not a time of day, yet \<open>parseTime\<close> answers NaN and not
  \<^verbatim>\<open>undefined\<close>: the run goes on to connect to the primary, to pick peers and to reconcile
  each peer, with NaN as the start of the window.
\<close>

theorem printSyncHealth_unparseable_time_proceeds:
  "parseTime 0 ''aa:bb:cc'' = Some NaN
   \<and> printSyncHealth \<lparr>localMidnight = 0, clientRaises = (\<lambda>transport address. False),
          notReady = (\<lambda>transport address. False), peersPicked = Inr [Some ''peer1'']\<rparr>
        ''aa:bb:cc'' ''10:00:00'' 5 ''primary'' ''out.log''
     = [ConsoleLog ''Start time'', GetRpcClient Secure ''primary'',
        WaitForReady Secure ''primary'', PickPeers 5,
        GetRpcClient Insecure ''peer1'', WaitForReady Insecure ''peer1'',
        ConsoleLog ''Connecting to peer'',
        ReconcilePeer ''peer1'' NaN (Finite 36000000), CloseClient ''primary'']"
  by (intro conjI; code_simp)

lemma printSyncHealth_undefined_time:
  "parseTime (localMidnight env) startTimeOfDay = None
     \<or> parseTime (localMidnight env) stopTimeOfDay = None \<Longrightarrow>
   printSyncHealth env startTimeOfDay stopTimeOfDay maxNumPeers primaryNode outfile
     = [ConsoleLog ''Unable to parse time, must specify as HH:MM:SS'']"
  by (auto simp: printSyncHealth_def split: option.splits)

section \<open>Remote calls of the collector and of the repair\<close>

lemma recordingClient_calls:
  "getSyncMetadataByPrefix (recordingClient name replica) p calls
     = (metadataByPrefix replica p, calls @ [(name, GetSyncMetadataByPrefix p)])"
  "getAllSyncIdsByPrefix (recordingClient name replica) p calls
     = (syncIdsByPrefix replica p, calls @ [(name, GetAllSyncIdsByPrefix p)])"
  "getAllMessagesBySyncIds (recordingClient name replica) ids calls
     = (messagesBySyncIds replica ids, calls @ [(name, GetAllMessagesBySyncIds ids)])"
  "submitMessage (recordingClient name replica) m calls
     = (submitResult replica m, calls @ [(name, SubmitMessage m)])"
  by (simp_all add: recordingClient_def)


lemma submitMessages_recording:
  "submitMessages (recordingClient name replica) messages results' calls
     = (results' @ map (submitResult replica) messages,
        calls @ map (\<lambda>m. (name, SubmitMessage m)) messages)"
proof (induction messages arbitrary: results' calls)
  case Nil
  show ?case by simp
next
  case (Cons m messages)
  show ?case by (simp add: Cons recordingClient_calls)
qed


section \<open>The collector on a replica over a trie\<close>















text \<open>
  C6 (amended). An empty missing set yields an empty outcome list and no remote call. For a
  non-empty missing set the payloads are fetched with one call; when that fetch fails the
  step fails with its error and records no outcome; otherwise every fetched message is
  submitted, in order, and one outcome is recorded per fetched message, whether or not
  submissions before it succeeded.
\<close>

theorem tryPushingMissingMessages_outcomes:
  "tryPushingMissingMessages rpcClientWithMessages rpcClientMissingMessages [] w = (Inr [], w)
   \<and> (missingSyncIds \<noteq> [] \<and> messagesBySyncIds source missingSyncIds = Inr messages \<longrightarrow>
        tryPushingMissingMessages (recordingClient sourceName source) (recordingClient targetName target)
            missingSyncIds calls
          = (Inr (map (submitResult target) messages),
             calls @ (sourceName, GetAllMessagesBySyncIds missingSyncIds)
               # map (\<lambda>m. (targetName, SubmitMessage m)) messages))
   \<and> (missingSyncIds \<noteq> [] \<and> messagesBySyncIds source missingSyncIds = Inl e \<longrightarrow>
        tryPushingMissingMessages (recordingClient sourceName source) (recordingClient targetName target)
            missingSyncIds calls
          = (Inl e, calls @ [(sourceName, GetAllMessagesBySyncIds missingSyncIds)]))"
  by (simp add: tryPushingMissingMessages_def recordingClient_calls submitMessages_recording)

theorem tryPushingMissingMessages_outcomes_witness:
  "tryPushingMissingMessages (recordingClient ''primary'' (trieReplica [] []))
       (recordingClient ''peer''
          ((trieReplica [] [])\<lparr>submitResult :=
             (\<lambda>m. if hash m = [1] then Inl (HubError ''bad_request'' ''rejected'') else Inr m)\<rparr>))
       [[1], [2]] []
     = (Inr [Inl (HubError ''bad_request'' ''rejected''), Inr (Message [2] None)],
        [(''primary'', GetAllMessagesBySyncIds [[1], [2]]),
         (''peer'', SubmitMessage (Message [1] None)),
         (''peer'', SubmitMessage (Message [2] None))])"
proof -
  let ?target = "(trieReplica [] [])\<lparr>submitResult :=
             (\<lambda>m. if hash m = [1] then Inl (HubError ''bad_request'' ''rejected'') else Inr m)\<rparr>"
  have h1: "([[1], [2]] :: Buffer list) \<noteq> []" by simp
  have h2: "messagesBySyncIds (trieReplica [] []) [[1], [2]]
              = Inr [Message [1] None, Message [2] None]"
    by (simp add: trieReplica_def)
  have e: "map (submitResult ?target) [Message [1] None, Message [2] None]
             = [Inl (HubError ''bad_request'' ''rejected''), Inr (Message [2] None)]"
    by simp
  note outcomes = tryPushingMissingMessages_outcomes [where missingSyncIds = "[[1], [2]]"
      and source = "trieReplica [] []" and messages = "[Message [1] None, Message [2] None]"
      and sourceName = "''primary''" and targetName = "''peer''" and target = ?target
      and calls = "[]"]
  have "tryPushingMissingMessages (recordingClient ''primary'' (trieReplica [] []))
          (recordingClient ''peer'' ?target) [[1], [2]] []
        = (Inr (map (submitResult ?target) [Message [1] None, Message [2] None]),
           [] @ (''primary'', GetAllMessagesBySyncIds [[1], [2]])
             # map (\<lambda>m. (''peer'', SubmitMessage m)) [Message [1] None, Message [2] None])"
    by (rule outcomes [THEN conjunct2, THEN conjunct1, THEN mp, OF conjI [OF h1 h2]])
  then show ?thesis unfolding e by simp
qed

text \<open>
  The claim as stated fails when the fetch of the payloads returns fewer messages than
  identifiers (two identifiers, one outcome) and when it fails (an error, no outcome).
\<close>

theorem tryPushingMissingMessages_counterexample:
  "tryPushingMissingMessages
       (recordingClient ''primary''
          ((trieReplica [] [])\<lparr>messagesBySyncIds :=
             (\<lambda>ids. Inr (map (\<lambda>syncId. Message syncId None) (take 1 ids)))\<rparr>))
       (recordingClient ''peer'' (trieReplica [] [])) [[1], [2]] []
     = (Inr [Inr (Message [1] None)],
        [(''primary'', GetAllMessagesBySyncIds [[1], [2]]),
         (''peer'', SubmitMessage (Message [1] None))])
   \<and> tryPushingMissingMessages
       (recordingClient ''primary''
          ((trieReplica [] [])\<lparr>messagesBySyncIds :=
             (\<lambda>ids. Inl (HubError ''unavailable'' ''deadline exceeded''))\<rparr>))
       (recordingClient ''peer'' (trieReplica [] [])) [[1], [2]] []
     = (Inl (HubError ''unavailable'' ''deadline exceeded''),
        [(''primary'', GetAllMessagesBySyncIds [[1], [2]])])"
  by (intro conjI; code_simp)

end
